theory Spec2Isabelle
  imports Complex_Main "HOL-Library.Multiset" "HOL-Library.Sublist" "HOL-Library.AList"
begin

section \<open>Arrays in a store\<close>

text \<open>
  JavaScript arrays are objects: \<open>shuffle(urls)\<close> receives a reference, and whether the
  caller's array changes depends on which object is written. Arrays therefore live in a
  store, a list of arrays addressed by position; \<open>[...array]\<close> allocates a new array at
  the end of the store and returns its address.
\<close>

type_synonym addr = nat
type_synonym 'a store = "'a list list"

definition spread :: "addr \<Rightarrow> 'a store \<Rightarrow> addr \<times> 'a store" where
  "spread a h = (length h, h @ [h ! a])"

definition array_set :: "addr \<Rightarrow> nat \<Rightarrow> 'a \<Rightarrow> 'a store \<Rightarrow> 'a store" where
  "array_set a i v h = h[a := (h ! a)[i := v]]"

section \<open>shuffle\<close>

text \<open>
  \<open>Math.random()\<close> is the environment: \<open>rnd k\<close> is the value of its \<open>k\<close>-th call, a
  number in \<open>[0, 1)\<close>. One round of the \<open>while (currentIndex !== 0)\<close> loop draws
  \<open>randomIndex = Math.floor(Math.random() * currentIndex)\<close>, decrements \<open>currentIndex\<close>
  and swaps the two cells of \<open>newArray\<close>. With a draw in \<open>[0, 1)\<close> both indices are
  inside the array, so no read or write is out of range.
\<close>

fun shuffle_loop :: "(nat \<Rightarrow> rat) \<Rightarrow> nat \<Rightarrow> addr \<Rightarrow> nat \<Rightarrow> 'a store \<Rightarrow> 'a store" where
  "shuffle_loop rnd k newArray 0 h = h"
| "shuffle_loop rnd k newArray (Suc c) h =
     (let randomIndex = nat \<lfloor>rnd k * of_nat (Suc c)\<rfloor>;
          currentIndex = c;
          temporaryValue = (h ! newArray) ! currentIndex;
          h1 = array_set newArray currentIndex ((h ! newArray) ! randomIndex) h;
          h2 = array_set newArray randomIndex temporaryValue h1
      in shuffle_loop rnd (Suc k) newArray currentIndex h2)"

definition shuffle :: "(nat \<Rightarrow> rat) \<Rightarrow> addr \<Rightarrow> 'a store \<Rightarrow> addr \<times> 'a store" where
  "shuffle rnd array h =
     (let (newArray, h1) = spread array h;
          currentIndex = length (h1 ! newArray)
      in (newArray, shuffle_loop rnd 0 newArray currentIndex h1))"

definition unit_draws :: "(nat \<Rightarrow> rat) \<Rightarrow> bool" where
  "unit_draws rnd = (\<forall>k. 0 \<le> rnd k \<and> rnd k < 1)"

section \<open>Queue construction in main\<close>

text \<open>
  \<open>if (traversalOrder === 'random') shuffle(urls);\<close> is a statement: the address that
  \<open>shuffle\<close> returns is dropped. \<open>const urlQueue = [...urls]\<close> then copies \<open>urls\<close>.
\<close>

definition main_queue :: "(nat \<Rightarrow> rat) \<Rightarrow> string \<Rightarrow> addr \<Rightarrow> 'a store \<Rightarrow> addr \<times> 'a store" where
  "main_queue rnd traversalOrder urls h =
     (let h1 = (if traversalOrder = ''random'' then snd (shuffle rnd urls h) else h)
      in spread urls h1)"

section \<open>Operator input\<close>

text \<open>
  The operator's terminal is a list of lines still to be typed, consumed from the front.
  \<open>ask\<close> reads one line and returns \<open>answer || String(def)\<close>: an empty line gives the
  default. With no line left the promise of \<open>rl.question\<close> never settles, which is the
  value \<open>None\<close>. The prompt text only goes to the screen and is left out. Every default
  the source passes is a string.
\<close>

definition or_default :: "string \<Rightarrow> string \<Rightarrow> string" where
  "or_default answer def = (if answer \<noteq> [] then answer else def)"

definition ask :: "string \<Rightarrow> string list \<Rightarrow> (string \<times> string list) option" where
  "ask def stdin =
     (case stdin of
        [] \<Rightarrow> None
      | answer # rest \<Rightarrow> Some (or_default answer def, rest))"

lemma ask_shorter: "ask def stdin = Some (answer, rest) \<Longrightarrow> length rest < length stdin"
  by (cases stdin) (simp_all add: ask_def)

function validateAsk ::
  "string \<Rightarrow> (string \<Rightarrow> bool) \<Rightarrow> string list \<Rightarrow> (string \<times> string list) option" where
  "validateAsk def validator stdin =
     (case ask def stdin of
        None \<Rightarrow> None
      | Some (answer, rest) \<Rightarrow>
          if \<not> validator answer then validateAsk def validator rest
          else Some (answer, rest))"
  by pat_completeness auto
termination
  by (relation "measure (\<lambda>(def, validator, stdin). length stdin)")
     (auto dest: ask_shorter)

declare validateAsk.simps [simp del]

text \<open>
  A JavaScript number is a double: a rational, an infinity, or NaN. Comparison with a
  finite constant is false on NaN. \<open>Number(input)\<close> is the language's conversion of a
  string; the validators take it as the parameter \<open>Number\<close>.
\<close>

datatype jsnum = NaN | Num rat | PosInfinity | NegInfinity

definition js_gt :: "jsnum \<Rightarrow> rat \<Rightarrow> bool" where
  "js_gt x c = (case x of NaN \<Rightarrow> False | Num q \<Rightarrow> c < q | PosInfinity \<Rightarrow> True | NegInfinity \<Rightarrow> False)"

definition js_lt :: "jsnum \<Rightarrow> rat \<Rightarrow> bool" where
  "js_lt x c = (case x of NaN \<Rightarrow> False | Num q \<Rightarrow> q < c | PosInfinity \<Rightarrow> False | NegInfinity \<Rightarrow> True)"

record configuration =
  sitemapUrl :: string
  concurrencyLimit :: string
  requestDelay :: string
  traversalOrder :: string

definition askConfigurations ::
  "(string \<Rightarrow> jsnum) \<Rightarrow> string list \<Rightarrow> (configuration \<times> string list) option" where
  "askConfigurations Number stdin =
     (case validateAsk '''' (\<lambda>input. prefix ''http'' input) stdin of
        None \<Rightarrow> None
      | Some (sitemapUrl', in1) \<Rightarrow>
     (case validateAsk ''5'' (\<lambda>input. js_gt (Number input) 0 \<and> js_lt (Number input) 15) in1 of
        None \<Rightarrow> None
      | Some (concurrencyLimit', in2) \<Rightarrow>
     (case validateAsk ''1000'' (\<lambda>input. js_gt (Number input) 250) in2 of
        None \<Rightarrow> None
      | Some (requestDelay', in3) \<Rightarrow>
     (case validateAsk ''sequential'' (\<lambda>input. input \<in> set [''random'', ''sequential'']) in3 of
        None \<Rightarrow> None
      | Some (traversalOrder', in4) \<Rightarrow>
          Some (\<lparr>sitemapUrl = sitemapUrl', concurrencyLimit = concurrencyLimit',
                 requestDelay = requestDelay', traversalOrder = traversalOrder'\<rparr>, in4)))))"

text \<open>
  \<open>Number\<close> on plain decimal literals: an optional sign, digits, an optional fraction, read
  as their exact value (the double nearest to it is that value for literals such as
  \<open>2.5\<close>); the empty string is 0. The built-in also reads exponents, \<open>Infinity\<close>, hex
  literals and surrounding white space, which this function answers with NaN: it is used
  to run the validators on concrete plain literals only.
\<close>

definition is_digit :: "char \<Rightarrow> bool" where
  "is_digit c = (c \<in> set ''0123456789'')"

fun digits_value :: "nat \<Rightarrow> string \<Rightarrow> nat" where
  "digits_value acc [] = acc"
| "digits_value acc (c # cs) = digits_value (10 * acc + (of_char c - 48)) cs"

definition unsigned_decimal :: "string \<Rightarrow> rat option" where
  "unsigned_decimal s =
     (let ip = takeWhile is_digit s; r = dropWhile is_digit s
      in case r of
           [] \<Rightarrow> if ip = [] then None else Some (of_nat (digits_value 0 ip))
         | c # fp \<Rightarrow>
             if c = CHR ''.'' \<and> list_all is_digit fp \<and> (ip \<noteq> [] \<or> fp \<noteq> [])
             then Some (of_nat (digits_value 0 ip) + of_nat (digits_value 0 fp) / 10 ^ length fp)
             else None)"

definition Number_decimal :: "string \<Rightarrow> jsnum" where
  "Number_decimal s =
     (case s of
        [] \<Rightarrow> Num 0
      | c # cs \<Rightarrow>
          if c = CHR ''-'' then (case unsigned_decimal cs of None \<Rightarrow> NaN | Some q \<Rightarrow> Num (- q))
          else if c = CHR ''+'' then (case unsigned_decimal cs of None \<Rightarrow> NaN | Some q \<Rightarrow> Num q)
          else (case unsigned_decimal s of None \<Rightarrow> NaN | Some q \<Rightarrow> Num q))"

section \<open>validateURL\<close>

record URLStatus =
  url :: string
  status :: int

text \<open>
  \<open>await axios.get(url)\<close> ends in one of two ways: \<open>Resolved s\<close>, a response whose
  \<open>status\<close> is \<open>s\<close>, or \<open>Rejected r\<close>, a thrown error, where \<open>r\<close> is
  \<open>error.response?.status\<close> (\<open>None\<close> for \<open>undefined\<close>). \<open>a || d\<close> on numbers takes \<open>d\<close>
  when \<open>a\<close> is undefined or 0.
\<close>

datatype axios_result = Resolved int | Rejected "int option"

definition js_or :: "'a::zero option \<Rightarrow> 'a \<Rightarrow> 'a" where
  "js_or a d = (case a of None \<Rightarrow> d | Some n \<Rightarrow> if n = 0 then d else n)"

record records =
  non200Urls :: "URLStatus list"
  parsedUrls :: "URLStatus list"

definition validateURL ::
  "string \<Rightarrow> axios_result \<Rightarrow> 'a records_scheme \<Rightarrow> URLStatus \<times> 'a records_scheme" where
  "validateURL u res g =
     (case res of
        Resolved response_status \<Rightarrow>
          (let g1 = (if response_status \<noteq> 200
                     then g\<lparr>non200Urls := non200Urls g @ [\<lparr>url = u, status = response_status\<rparr>]\<rparr>
                     else g);
               g2 = g1\<lparr>parsedUrls := parsedUrls g1 @ [\<lparr>url = u, status = response_status\<rparr>]\<rparr>
           in (\<lparr>url = u, status = response_status\<rparr>, g2))
      | Rejected error_response_status \<Rightarrow>
          (let st = js_or error_response_status 500;
               g1 = g\<lparr>non200Urls := non200Urls g @ [\<lparr>url = u, status = st\<rparr>]\<rparr>
           in (\<lparr>url = u, status = st\<rparr>, g1)))"

text \<open>
  The GET itself ends with a response that has a status code, or with no response (the
  name does not resolve, the connection is refused, the handshake fails).
  \<open>axios.get(url)\<close> is called with no \<open>validateStatus\<close> option, so axios, a dependency of
  the program, settles the promise by its default: a response whose status is from 200
  to 299, or is falsy, fulfils it; a response with any other status is thrown as an
  error that carries the response; with no response the error carries none.
\<close>

datatype http_exchange = Response int | NoResponse

definition axios_get :: "http_exchange \<Rightarrow> axios_result" where
  "axios_get x =
     (case x of
        Response st \<Rightarrow>
          if st = 0 \<or> (200 \<le> st \<and> st < 300) then Resolved st else Rejected (Some st)
      | NoResponse \<Rightarrow> Rejected None)"

section \<open>The worker pool\<close>

text \<open>
  All workers run on one event loop: the code between two \<open>await\<close>s runs without
  interruption, and at an \<open>await\<close> any other pending continuation may run. A worker is
  therefore in one of four places: waiting for a timer (\<open>await delay(ms)\<close>), inside
  \<open>validateURL\<close> waiting for \<open>axios.get\<close>, back from \<open>validateURL\<close> with its record and
  waiting to continue, or returned.
\<close>

datatype wstate =
    Sleeping jsnum
  | Fetching string "string list"
  | Returned string "string list" URLStatus
  | Done

record report =
  r_processed :: nat
  r_total :: nat
  r_url :: string
  r_status :: int
  r_statusCounts :: "(int \<times> nat) list"
  r_urls :: "string list"

text \<open>
  The shared state: the two module-level collections and the pause flag, the locals of
  \<open>main\<close> that the workers close over, and two logs of what leaves the program:
  \<open>requests\<close>, the URLs passed to \<open>validateURL\<close> (each call issues \<open>axios.get\<close> at once),
  and \<open>reports\<close>, the calls of \<open>updateProgress\<close>. \<open>delay_ms\<close> is \<open>Number(requestDelay)\<close>.
\<close>

record pool = records +
  urlQueue :: "string list"
  total :: nat
  processed :: nat
  statusCounts :: "(int \<times> nat) list"
  isPaused :: bool
  delay_ms :: jsnum
  requests :: "string list"
  reports :: "report list"
  workers :: "wstate list"

text \<open>
  The body of \<open>worker\<close> from the loop test to its next \<open>await\<close>. A popped URL that is
  falsy (the empty string) skips the \<open>if (url)\<close> block, and the loop goes round again
  without a pause.
\<close>

function worker_loop :: "pool \<Rightarrow> wstate \<times> pool" where
  "worker_loop s =
     (case urlQueue s of
        [] \<Rightarrow> (Done, s)
      | u # q \<Rightarrow>
          if isPaused s then (Sleeping (Num 1000), s)
          else
            (let s1 = s\<lparr>urlQueue := q\<rparr>;
                 nextUrls = take 5 (urlQueue s1)
             in if u \<noteq> [] then (Fetching u nextUrls, s1\<lparr>requests := requests s1 @ [u]\<rparr>)
                else worker_loop s1))"
  by pat_completeness auto
termination
  by (relation "measure (\<lambda>s. length (urlQueue s))") auto

declare worker_loop.simps [simp del]

text \<open>The worker's code after \<open>await validateURL(url)\<close>, up to \<open>await delay(...)\<close>.\<close>

definition worker_continue :: "string \<Rightarrow> string list \<Rightarrow> URLStatus \<Rightarrow> pool \<Rightarrow> pool" where
  "worker_continue u nextUrls result s =
     (let s1 = s\<lparr>processed := processed s + 1\<rparr>;
          s2 = s1\<lparr>statusCounts :=
                  AList.update (status result)
                    (js_or (map_of (statusCounts s1) (status result)) 0 + 1) (statusCounts s1)\<rparr>
      in s2\<lparr>reports := reports s2 @
               [\<lparr>r_processed = processed s2, r_total = total s2, r_url = u,
                 r_status = status result, r_statusCounts = statusCounts s2,
                 r_urls = nextUrls\<rparr>]\<rparr>)"

text \<open>
  What the event loop can run next: the timer of worker \<open>i\<close> fires, the request of worker
  \<open>i\<close> settles (the rest of \<open>validateURL\<close> runs), worker \<open>i\<close> continues after
  \<open>validateURL\<close>, or the pause flag is assigned from outside the pool (the source declares
  it with \<open>let\<close> and leaves the assignment to a control that is still to be written).
  An event that is not enabled gives \<open>None\<close>.
\<close>

datatype event = Timer nat | Settle nat axios_result | Continue nat | Pause bool

definition set_worker :: "nat \<Rightarrow> wstate \<Rightarrow> pool \<Rightarrow> pool" where
  "set_worker i w s = s\<lparr>workers := (workers s)[i := w]\<rparr>"

definition step :: "event \<Rightarrow> pool \<Rightarrow> pool option" where
  "step e s =
     (case e of
        Timer i \<Rightarrow>
          if i < length (workers s) then
            (case workers s ! i of
               Sleeping ms \<Rightarrow> (let (w, s1) = worker_loop s in Some (set_worker i w s1))
             | _ \<Rightarrow> None)
          else None
      | Settle i res \<Rightarrow>
          if i < length (workers s) then
            (case workers s ! i of
               Fetching u nextUrls \<Rightarrow>
                 (let (result, s1) = validateURL u res s
                  in Some (set_worker i (Returned u nextUrls result) s1))
             | _ \<Rightarrow> None)
          else None
      | Continue i \<Rightarrow>
          if i < length (workers s) then
            (case workers s ! i of
               Returned u nextUrls result \<Rightarrow>
                 Some (set_worker i (Sleeping (delay_ms s)) (worker_continue u nextUrls result s))
             | _ \<Rightarrow> None)
          else None
      | Pause b \<Rightarrow> Some (s\<lparr>isPaused := b\<rparr>))"

fun exec :: "event list \<Rightarrow> pool \<Rightarrow> pool option" where
  "exec [] s = Some s"
| "exec (e # es) s = (case step e s of None \<Rightarrow> None | Some s1 \<Rightarrow> exec es s1)"

text \<open>
  \<open>main\<close> up to \<open>Promise.all\<close>: the shared state is set up, and the \<open>for\<close> loop calls
  \<open>worker()\<close> once per round; each call runs to its first \<open>await\<close> before the next one
  starts, and its promise is pushed onto \<open>workers\<close>.
\<close>

definition new_pool :: "string list \<Rightarrow> jsnum \<Rightarrow> pool" where
  "new_pool urls d =
     \<lparr>non200Urls = [], parsedUrls = [], urlQueue = urls, total = length urls,
      processed = 0, statusCounts = [], isPaused = False, delay_ms = d,
      requests = [], reports = [], workers = []\<rparr>"

definition call_worker :: "pool \<Rightarrow> pool" where
  "call_worker s = (let (w, s1) = worker_loop s in s1\<lparr>workers := workers s1 @ [w]\<rparr>)"

fun spawn :: "nat \<Rightarrow> pool \<Rightarrow> pool" where
  "spawn 0 s = s"
| "spawn (Suc n) s = spawn n (call_worker s)"

definition start_pool :: "string list \<Rightarrow> jsnum \<Rightarrow> nat \<Rightarrow> pool" where
  "start_pool urls d n = spawn n (new_pool urls d)"

text \<open>
  The number of rounds of \<open>for (let i = 0; i < Number(concurrencyLimit); i++)\<close>: the
  number of naturals below the limit; with an infinite limit the loop has no last round.
\<close>

definition rounds :: "jsnum \<Rightarrow> nat option" where
  "rounds c =
     (case c of
        NaN \<Rightarrow> Some 0
      | Num q \<Rightarrow> Some (nat \<lceil>q\<rceil>)
      | PosInfinity \<Rightarrow> None
      | NegInfinity \<Rightarrow> Some 0)"

text \<open>Whether a number is an integer (\<open>Number.isInteger\<close>).\<close>

definition is_integer :: "jsnum \<Rightarrow> bool" where
  "is_integer x = (case x of Num q \<Rightarrow> of_int \<lfloor>q\<rfloor> = q | _ \<Rightarrow> False)"

text \<open>The lines that a prompt with default \<open>def\<close> and validator \<open>validator\<close> turns down.\<close>

definition all_rejected :: "string \<Rightarrow> (string \<Rightarrow> bool) \<Rightarrow> string list \<Rightarrow> bool" where
  "all_rejected def validator lines = list_all (\<lambda>l. \<not> validator (or_default l def)) lines"

text \<open>\<open>Promise.all(workers)\<close> is fulfilled when every worker has returned.\<close>

definition finished :: "pool \<Rightarrow> bool" where
  "finished s = list_all (\<lambda>w. w = Done) (workers s)"

fun holds_url :: "wstate \<Rightarrow> bool" where
  "holds_url (Fetching u nextUrls) = True"
| "holds_url (Returned u nextUrls result) = True"
| "holds_url w = False"

definition in_flight :: "pool \<Rightarrow> nat" where
  "in_flight s = length (filter holds_url (workers s))"

definition count_of :: "(int \<times> nat) list \<Rightarrow> int \<Rightarrow> nat" where
  "count_of h k = js_or (map_of h k) 0"

text \<open>The entries of a URL list that pass \<open>if (url)\<close>: the strings that are not empty.\<close>

abbreviation nonempty :: "string list \<Rightarrow> string list" where
  "nonempty us \<equiv> filter (\<lambda>u. u \<noteq> []) us"

text \<open>
  What holds of the shared state throughout a run over the input \<open>urls\<close>: the requests
  issued so far followed by the non-empty URLs still queued are the non-empty input URLs
  in input order; every request issued is either counted in \<open>processed\<close> or held by a
  worker; the histogram counts add up to \<open>processed\<close> and its keys are distinct; once a
  worker has returned the queue is empty; \<open>total\<close> is the input length.
\<close>

definition pool_inv :: "string list \<Rightarrow> pool \<Rightarrow> bool" where
  "pool_inv urls s \<longleftrightarrow>
     requests s @ nonempty (urlQueue s) = nonempty urls
   \<and> processed s + in_flight s = length (requests s)
   \<and> sum_list (map snd (statusCounts s)) = processed s
   \<and> distinct (map fst (statusCounts s))
   \<and> (Done \<in> set (workers s) \<longrightarrow> urlQueue s = [])
   \<and> total s = length urls"

text \<open>The worker that an event belongs to; the pause flag belongs to none.\<close>

fun worker_of :: "event \<Rightarrow> nat option" where
  "worker_of (Timer i) = Some i"
| "worker_of (Settle i res) = Some i"
| "worker_of (Continue i) = Some i"
| "worker_of (Pause b) = None"

text \<open>
  A bound on what a pool that is not paused can still do: every event of a worker
  lowers it. A queued URL weighs as much as a request in flight.
\<close>

fun weight :: "wstate \<Rightarrow> nat" where
  "weight (Sleeping ms) = 1"
| "weight (Fetching u nextUrls) = 3"
| "weight (Returned u nextUrls result) = 2"
| "weight Done = 0"

definition potential :: "pool \<Rightarrow> nat" where
  "potential s = 3 * length (urlQueue s) + sum_list (map weight (workers s))"

section \<open>saveResults\<close>

text \<open>
  The file system is a map from file names to contents. \<open>fs.writeFileSync\<close> stores the
  content under the name, or throws when the name cannot be written (its directory does
  not exist, it names a directory, permission is denied); \<open>unwritable\<close> is the set of
  those names, and a write that throws leaves the files as they were.
  \<open>JSON.stringify(_, null, 2)\<close> is the parameter \<open>stringify\<close>. \<open>toLowerCase\<close> maps the
  letters A to Z and leaves every other byte as it is (the lower-case form of a letter
  outside ASCII is never the one byte \<open>y\<close>).
\<close>

definition lower_char :: "char \<Rightarrow> char" where
  "lower_char c =
     (case map_of (zip ''ABCDEFGHIJKLMNOPQRSTUVWXYZ'' ''abcdefghijklmnopqrstuvwxyz'') c of
        None \<Rightarrow> c
      | Some l \<Rightarrow> l)"

definition toLowerCase :: "string \<Rightarrow> string" where
  "toLowerCase s = map lower_char s"

datatype io_error = WriteFailed string

definition saveToFile ::
  "string set \<Rightarrow> string \<Rightarrow> string \<Rightarrow> (string \<rightharpoonup> string) \<Rightarrow> io_error + (string \<rightharpoonup> string)" where
  "saveToFile unwritable filename data fs =
     (if filename \<in> unwritable then Inl (WriteFailed filename) else Inr (fs(filename \<mapsto> data)))"

text \<open>
  \<open>saveResults\<close> has no \<open>try\<close>: when a write throws, the function stops there and its
  promise is rejected. The result is \<open>None\<close> while a prompt still waits for a line;
  otherwise it tells whether the function threw (\<open>Inl\<close>) or returned (\<open>Inr\<close>), and gives
  the file system and the lines not yet read at that moment.
\<close>

definition saveResults ::
  "string set \<Rightarrow> (URLStatus list \<Rightarrow> string) \<Rightarrow> 'a records_scheme \<Rightarrow> string list
     \<Rightarrow> (string \<rightharpoonup> string)
     \<Rightarrow> ((io_error + unit) \<times> (string \<rightharpoonup> string) \<times> string list) option" where
  "saveResults unwritable stringify g stdin fs =
     (case ask ''Y'' stdin of
        None \<Rightarrow> None
      | Some (answer, in1) \<Rightarrow>
          if toLowerCase answer = ''y'' then
            (case validateAsk ''non200-urls.json'' (\<lambda>_. True) in1 of
               None \<Rightarrow> None
             | Some (non200fileName, in2) \<Rightarrow>
            (case validateAsk ''parsed-urls.json'' (\<lambda>_. True) in2 of
               None \<Rightarrow> None
             | Some (parsedFileName, in3) \<Rightarrow>
            (case saveToFile unwritable non200fileName (stringify (non200Urls g)) fs of
               Inl e \<Rightarrow> Some (Inl e, fs, in3)
             | Inr fs1 \<Rightarrow>
            (case saveToFile unwritable parsedFileName (stringify (parsedUrls g)) fs1 of
               Inl e \<Rightarrow> Some (Inl e, fs1, in3)
             | Inr fs2 \<Rightarrow> Some (Inr (), fs2, in3)))))
          else Some (Inr (), fs, in1))"

section \<open>Properties of shuffle\<close>

lemma random_index_less:
  assumes "0 \<le> (r::rat)" "r < 1"
  shows "nat \<lfloor>r * of_nat (Suc c)\<rfloor> < Suc c"
proof -
  have pos: "(0::rat) < of_nat (Suc c)"
    by (simp only: of_nat_0_less_iff zero_less_Suc)
  have "r * of_nat (Suc c) < 1 * of_nat (Suc c)"
    by (rule mult_strict_right_mono [OF assms(2) pos])
  then have "\<lfloor>r * of_nat (Suc c)\<rfloor> < int (Suc c)"
    by (simp add: floor_less_iff)
  moreover have "0 \<le> \<lfloor>r * of_nat (Suc c)\<rfloor>"
    using assms by simp
  ultimately show ?thesis by linarith
qed

lemma shuffle_loop_length: "length (shuffle_loop rnd k a c h) = length h"
  by (induction c arbitrary: k h) (simp_all add: Let_def array_set_def)

lemma shuffle_loop_frame:
  "b \<noteq> a \<Longrightarrow> shuffle_loop rnd k a c h ! b = h ! b"
  by (induction c arbitrary: k h) (simp_all add: Let_def array_set_def)

lemma shuffle_loop_mset:
  assumes "unit_draws rnd" "a < length h" "c \<le> length (h ! a)"
  shows "mset (shuffle_loop rnd k a c h ! a) = mset (h ! a)"
  using assms(2,3)
proof (induction c arbitrary: k h)
  case 0
  then show ?case by simp
next
  case (Suc c)
  define r where "r = nat \<lfloor>rnd k * of_nat (Suc c)\<rfloor>"
  define xs where "xs = h ! a"
  define h2 where "h2 = array_set a r (xs ! c) (array_set a c (xs ! r) h)"
  have r: "r < Suc c"
    using assms(1) unfolding r_def unit_draws_def by (simp only: random_index_less)
  have c: "c < length xs" and rl: "r < length xs"
    using Suc.prems r by (simp_all add: xs_def)
  have h2a: "h2 ! a = xs[c := xs ! r, r := xs ! c]"
    using Suc.prems(1) by (simp add: h2_def array_set_def xs_def)
  have len: "a < length h2" "c \<le> length (h2 ! a)"
    using Suc.prems(1) c by (simp_all add: h2a) (simp add: h2_def array_set_def)
  have "shuffle_loop rnd k a (Suc c) h = shuffle_loop rnd (Suc k) a c h2"
    by (simp add: Let_def h2_def r_def xs_def)
  then have "mset (shuffle_loop rnd k a (Suc c) h ! a) = mset (h2 ! a)"
    using Suc.IH [OF len] by simp
  also have "\<dots> = mset xs"
    using mset_swap [OF rl c] by (simp add: h2a)
  finally show ?case by (simp add: xs_def)
qed

lemma spread_simps:
  "fst (spread a h) = length h" "snd (spread a h) = h @ [h ! a]"
  by (simp_all add: spread_def)

text \<open>
  C9. \<open>shuffle\<close> does not write to its argument. For every store, every array in it and
  every sequence of draws from \<open>[0, 1)\<close>, the call returns the address of a new array
  (one that was not in the store before, so different from the argument), every array
  that was in the store, the argument among them, holds exactly the elements it held
  before, and the new array is a permutation of the argument: the same elements with the
  same multiplicities.
\<close>

theorem shuffle_returns_fresh_permutation:
  assumes "array < length h" and "unit_draws rnd"
    and "shuffle rnd array h = (newArray, h')"
  shows "newArray = length h \<and> newArray \<noteq> array \<and> length h' = Suc (length h)
    \<and> (\<forall>b < length h. h' ! b = h ! b)
    \<and> h' ! array = h ! array
    \<and> mset (h' ! newArray) = mset (h ! array)"
proof -
  define h1 where "h1 = h @ [h ! array]"
  define a where "a = length h"
  have new: "newArray = a"
    and h': "h' = shuffle_loop rnd 0 a (length (h1 ! a)) h1"
    using assms(3) by (auto simp add: shuffle_def spread_def Let_def h1_def a_def)
  have h1a: "h1 ! a = h ! array"
    by (simp add: h1_def a_def)
  have old: "h' ! b = h ! b" if "b < length h" for b
  proof -
    from that have "b \<noteq> a" by (simp add: a_def)
    then have "h' ! b = h1 ! b" unfolding h' by (rule shuffle_loop_frame)
    with that show ?thesis by (simp add: h1_def nth_append)
  qed
  have "a < length h1" "length (h1 ! a) \<le> length (h1 ! a)"
    by (simp_all add: h1_def a_def)
  from shuffle_loop_mset [OF assms(2) this]
  have "mset (h' ! a) = mset (h ! array)"
    by (simp add: h' h1a)
  moreover have "length h' = Suc (length h)"
    by (simp add: h' shuffle_loop_length h1_def)
  ultimately show ?thesis
    using assms(1) old by (simp add: new a_def)
qed

theorem shuffle_returns_fresh_permutation_witness:
  "shuffle (\<lambda>k. 1 / 2) 0 [[1, 2, 3 :: int]] = (1, [[1, 2, 3], [1, 3, 2]])
   \<and> unit_draws (\<lambda>k. 1 / 2)
   \<and> [[1, 2, 3], [1, 3, 2]] ! 0 = [[1, 2, 3 :: int]] ! 0
   \<and> mset ([[1, 2, 3], [1, 3, 2 :: int]] ! 1) = mset ([[1, 2, 3]] ! 0)"
proof -
  have run: "shuffle (\<lambda>k. 1 / 2) 0 [[1, 2, 3 :: int]] = (1, [[1, 2, 3], [1, 3, 2]])"
    by code_simp
  have draws: "unit_draws (\<lambda>k. 1 / 2)"
    by (simp add: unit_draws_def)
  have "(0::nat) < length [[1, 2, 3 :: int]]"
    by simp
  from shuffle_returns_fresh_permutation [OF this draws run] run draws
  show ?thesis by simp
qed

text \<open>
  C1. With the traversal order \<open>random\<close>, \<open>main\<close> calls \<open>shuffle(urls)\<close> and drops what it
  returns; \<open>shuffle\<close> works on a copy, so \<open>urls\<close> is as it was and the queue is the input
  sequence. On the input \<open>[a, b]\<close> with the draws all 0, \<open>shuffle\<close> returns \<open>[b, a]\<close> (the
  array at address 1), and the queue that \<open>main\<close> builds (the array at address 2) is
  \<open>[a, b]\<close>.
\<close>

theorem main_queue_random_is_input_order:
  "shuffle (\<lambda>k. 0) 0 [[''a'', ''b'']] = (1, [[''a'', ''b''], [''b'', ''a'']])
   \<and> main_queue (\<lambda>k. 0) ''random'' 0 [[''a'', ''b'']]
       = (2, [[''a'', ''b''], [''b'', ''a''], [''a'', ''b'']])"
  by (simp add: main_queue_def shuffle_def spread_def array_set_def eval_nat_numeral Let_def)

section \<open>Properties of validateURL\<close>

text \<open>
  C4, as the code has it. When the GET completes with a response, \<open>validateURL\<close> returns
  the record of the URL and the response's status code, and appends that record to
  \<open>non200Urls\<close> exactly when the code is not 200: a 201 or a 204 is recorded there, a
  200 is not. It appends the record to \<open>parsedUrls\<close> (all observations) exactly when
  \<open>axios.get\<close> fulfils, that is for a code from 200 to 299 (and for the code 0, which no
  response has): for any other code \<open>axios.get\<close> throws, and the \<open>catch\<close> branch leaves
  \<open>parsedUrls\<close> as it was. Nothing else of the state changes.
\<close>

theorem validateURL_response_recorded:
  assumes "validateURL u (axios_get (Response code)) g = (result, g')"
  shows "result = \<lparr>url = u, status = code\<rparr>
    \<and> non200Urls g' = (if code \<noteq> 200 then non200Urls g @ [result] else non200Urls g)
    \<and> parsedUrls g' = (if code = 0 \<or> (200 \<le> code \<and> code < 300)
                        then parsedUrls g @ [result] else parsedUrls g)
    \<and> records.more g' = records.more g"
  using assms by (auto simp add: validateURL_def axios_get_def js_or_def Let_def split: if_splits)

theorem validateURL_response_recorded_witness:
  "validateURL ''u'' (axios_get (Response 204)) \<lparr>non200Urls = [], parsedUrls = []\<rparr>
     = (\<lparr>url = ''u'', status = 204\<rparr>,
        \<lparr>non200Urls = [\<lparr>url = ''u'', status = 204\<rparr>],
         parsedUrls = [\<lparr>url = ''u'', status = 204\<rparr>]\<rparr>)
   \<and> validateURL ''u'' (axios_get (Response 200)) \<lparr>non200Urls = [], parsedUrls = []\<rparr>
     = (\<lparr>url = ''u'', status = 200\<rparr>,
        \<lparr>non200Urls = [], parsedUrls = [\<lparr>url = ''u'', status = 200\<rparr>]\<rparr>)
   \<and> validateURL ''u'' (axios_get (Response 500)) \<lparr>non200Urls = [], parsedUrls = []\<rparr>
     = (\<lparr>url = ''u'', status = 500\<rparr>,
        \<lparr>non200Urls = [\<lparr>url = ''u'', status = 500\<rparr>], parsedUrls = []\<rparr>)"
proof -
  obtain r1 g1 where a: "validateURL ''u'' (axios_get (Response 204)) \<lparr>non200Urls = [], parsedUrls = []\<rparr> = (r1, g1)"
    by (cases "validateURL ''u'' (axios_get (Response 204)) \<lparr>non200Urls = [], parsedUrls = []\<rparr>")
  obtain r2 g2 where b: "validateURL ''u'' (axios_get (Response 200)) \<lparr>non200Urls = [], parsedUrls = []\<rparr> = (r2, g2)"
    by (cases "validateURL ''u'' (axios_get (Response 200)) \<lparr>non200Urls = [], parsedUrls = []\<rparr>")
  obtain r3 g3 where c: "validateURL ''u'' (axios_get (Response 500)) \<lparr>non200Urls = [], parsedUrls = []\<rparr> = (r3, g3)"
    by (cases "validateURL ''u'' (axios_get (Response 500)) \<lparr>non200Urls = [], parsedUrls = []\<rparr>")
  from validateURL_response_recorded [OF a] validateURL_response_recorded [OF b]
    validateURL_response_recorded [OF c]
  show ?thesis unfolding a b c by simp
qed

text \<open>
  C4, as the claim has it, fails for a response that is not a 2xx: a GET that completes
  with a 404 is recorded in \<open>non200Urls\<close> and not in \<open>parsedUrls\<close>.
\<close>

theorem validateURL_404_not_in_parsedUrls:
  "validateURL ''u'' (axios_get (Response 404)) \<lparr>non200Urls = [], parsedUrls = []\<rparr>
     = (\<lparr>url = ''u'', status = 404\<rparr>,
        \<lparr>non200Urls = [\<lparr>url = ''u'', status = 404\<rparr>], parsedUrls = []\<rparr>)"
  by (simp add: validateURL_def axios_get_def js_or_def)

text \<open>
  C2. When \<open>axios.get\<close> throws, \<open>validateURL\<close> catches the error and returns a record
  (its result is always a record: the function has no way to fail). The record's status
  is the code carried on the error's response when there is one, and 500 when there is
  none; the record is appended to \<open>non200Urls\<close> and \<open>parsedUrls\<close> is left as it was.
  A carried code is an HTTP status code and so is not 0 (\<open>||\<close> takes 0 for absent).
\<close>

theorem validateURL_failure_recorded:
  assumes "validateURL u (Rejected carried) g = (result, g')"
    and "carried \<noteq> Some 0"
  shows "result = \<lparr>url = u, status = (case carried of Some code \<Rightarrow> code | None \<Rightarrow> 500)\<rparr>
    \<and> non200Urls g' = non200Urls g @ [result]
    \<and> parsedUrls g' = parsedUrls g
    \<and> records.more g' = records.more g"
  using assms by (auto simp add: validateURL_def js_or_def Let_def split: option.splits)

theorem validateURL_failure_recorded_witness:
  "validateURL ''u'' (Rejected (Some 404)) \<lparr>non200Urls = [], parsedUrls = []\<rparr>
     = (\<lparr>url = ''u'', status = 404\<rparr>,
        \<lparr>non200Urls = [\<lparr>url = ''u'', status = 404\<rparr>], parsedUrls = []\<rparr>)
   \<and> validateURL ''u'' (Rejected None) \<lparr>non200Urls = [], parsedUrls = []\<rparr>
     = (\<lparr>url = ''u'', status = 500\<rparr>,
        \<lparr>non200Urls = [\<lparr>url = ''u'', status = 500\<rparr>], parsedUrls = []\<rparr>)"
proof -
  obtain r1 g1 where a: "validateURL ''u'' (Rejected (Some 404)) \<lparr>non200Urls = [], parsedUrls = []\<rparr> = (r1, g1)"
    by (cases "validateURL ''u'' (Rejected (Some 404)) \<lparr>non200Urls = [], parsedUrls = []\<rparr>")
  obtain r2 g2 where b: "validateURL ''u'' (Rejected None) \<lparr>non200Urls = [], parsedUrls = []\<rparr> = (r2, g2)"
    by (cases "validateURL ''u'' (Rejected None) \<lparr>non200Urls = [], parsedUrls = []\<rparr>")
  have c: "Some (404::int) \<noteq> Some 0" "(None :: int option) \<noteq> Some 0"
    by simp_all
  from validateURL_failure_recorded [OF a c(1)] validateURL_failure_recorded [OF b c(2)]
  show ?thesis unfolding a b by simp
qed

section \<open>Properties of the prompts\<close>

lemma validateAsk_Nil: "validateAsk d v [] = None"
  by (simp add: validateAsk.simps ask_def)

lemma validateAsk_Cons:
  "validateAsk d v (l # ls) =
     (if v (or_default l d) then Some (or_default l d, ls) else validateAsk d v ls)"
  by (simp add: validateAsk.simps [of d v "l # ls"] ask_def)

lemma validateAsk_accept:
  "all_rejected d v bad \<Longrightarrow> v (or_default l d) \<Longrightarrow>
     validateAsk d v (bad @ l # rest) = Some (or_default l d, rest)"
  by (induction bad) (simp_all add: validateAsk_Cons all_rejected_def)

lemma validateAsk_SomeD:
  "validateAsk d v stdin = Some (a, rest) \<Longrightarrow>
     \<exists>bad l. stdin = bad @ l # rest \<and> all_rejected d v bad \<and> a = or_default l d \<and> v a"
proof (induction stdin)
  case Nil
  then show ?case by (simp add: validateAsk_Nil)
next
  case (Cons x xs)
  show ?case
  proof (cases "v (or_default x d)")
    case True
    with Cons.prems have "a = or_default x d" "rest = xs"
      by (simp_all add: validateAsk_Cons)
    with True have "x # xs = [] @ x # rest \<and> all_rejected d v [] \<and> a = or_default x d \<and> v a"
      by (simp add: all_rejected_def)
    then show ?thesis by blast
  next
    case False
    with Cons.prems have "validateAsk d v xs = Some (a, rest)"
      by (simp add: validateAsk_Cons)
    from Cons.IH [OF this] obtain bad l where
      "xs = bad @ l # rest" "all_rejected d v bad" "a = or_default l d" "v a"
      by blast
    with False have
      "x # xs = (x # bad) @ l # rest \<and> all_rejected d v (x # bad) \<and> a = or_default l d \<and> v a"
      by (simp add: all_rejected_def)
    then show ?thesis by blast
  qed
qed

lemma validateAsk_any:
  "validateAsk d (\<lambda>_. True) (l # rest) = Some (or_default l d, rest)"
  by (simp add: validateAsk_Cons)

lemma lower_char_y: "lower_char c = CHR ''y'' \<longleftrightarrow> c = CHR ''y'' \<or> c = CHR ''Y''"
  by (auto simp add: lower_char_def split: if_splits)

lemma toLowerCase_y: "toLowerCase s = ''y'' \<longleftrightarrow> s = ''y'' \<or> s = ''Y''"
  by (cases s) (auto simp add: toLowerCase_def lower_char_y)

text \<open>
  C10, as the code has it. \<open>saveResults\<close> goes on to write exactly when the answer to the
  first prompt, with the default \<open>Y\<close> for an empty line and put in lower case, is the one
  character \<open>y\<close>: that is, when the line typed is empty, \<open>y\<close> or \<open>Y\<close>. After any other
  line, \<open>yes\<close> among them, it returns at once: it reads no further line and the file
  system is as it was. After \<open>y\<close> the next two lines (or their defaults) name the files.
  When both names can be written, the non-200 records are written to the first and all
  records to the second. When the first cannot be written, \<open>saveResults\<close> throws and no
  file is written; when only the second cannot, the first file is written and
  \<open>saveResults\<close> throws at the second.
\<close>

theorem saveResults_writes_only_after_y:
  "(toLowerCase (or_default line ''Y'') = ''y'' \<longleftrightarrow> line \<in> {'''', ''y'', ''Y''})
   \<and> (line \<notin> {'''', ''y'', ''Y''} \<longrightarrow>
        saveResults unwritable stringify g (line # lines) fs = Some (Inr (), fs, lines))
   \<and> (line \<in> {'''', ''y'', ''Y''} \<longrightarrow>
        saveResults unwritable stringify g (line # name1 # name2 # rest) fs
          = (if or_default name1 ''non200-urls.json'' \<in> unwritable
             then Some (Inl (WriteFailed (or_default name1 ''non200-urls.json'')), fs, rest)
             else if or_default name2 ''parsed-urls.json'' \<in> unwritable
             then Some (Inl (WriteFailed (or_default name2 ''parsed-urls.json'')),
                        fs(or_default name1 ''non200-urls.json'' \<mapsto> stringify (non200Urls g)),
                        rest)
             else Some (Inr (),
                        fs(or_default name1 ''non200-urls.json'' \<mapsto> stringify (non200Urls g),
                           or_default name2 ''parsed-urls.json'' \<mapsto> stringify (parsedUrls g)),
                        rest)))"
proof -
  have y: "toLowerCase (or_default line ''Y'') = ''y'' \<longleftrightarrow> line \<in> {'''', ''y'', ''Y''}"
    by (auto simp add: toLowerCase_y or_default_def)
  have "saveResults unwritable stringify g (line # name1 # name2 # rest) fs
          = (if or_default name1 ''non200-urls.json'' \<in> unwritable
             then Some (Inl (WriteFailed (or_default name1 ''non200-urls.json'')), fs, rest)
             else if or_default name2 ''parsed-urls.json'' \<in> unwritable
             then Some (Inl (WriteFailed (or_default name2 ''parsed-urls.json'')),
                        fs(or_default name1 ''non200-urls.json'' \<mapsto> stringify (non200Urls g)),
                        rest)
             else Some (Inr (),
                        fs(or_default name1 ''non200-urls.json'' \<mapsto> stringify (non200Urls g),
                           or_default name2 ''parsed-urls.json'' \<mapsto> stringify (parsedUrls g)),
                        rest))"
    if "line \<in> {'''', ''y'', ''Y''}"
    using that y
    by (simp add: saveResults_def ask_def validateAsk_any saveToFile_def)
  moreover have "saveResults unwritable stringify g (line # lines) fs = Some (Inr (), fs, lines)"
    if "line \<notin> {'''', ''y'', ''Y''}"
    using that y by (simp add: saveResults_def ask_def)
  ultimately show ?thesis using y by blast
qed

theorem saveResults_writes_only_after_y_witness:
  "saveResults {} (concat \<circ> map url) \<lparr>non200Urls = [], parsedUrls = []\<rparr>
       ['''', ''a.json'', ''''] Map.empty
     = Some (Inr (), [''a.json'' \<mapsto> '''', ''parsed-urls.json'' \<mapsto> ''''], [])
   \<and> saveResults {} (concat \<circ> map url) \<lparr>non200Urls = [], parsedUrls = []\<rparr>
       [''yes'', ''a.json'', ''''] Map.empty
     = Some (Inr (), Map.empty, [''a.json'', ''''])
   \<and> saveResults {''nodir/b.json''} (concat \<circ> map url) \<lparr>non200Urls = [], parsedUrls = []\<rparr>
       [''Y'', ''a.json'', ''nodir/b.json''] Map.empty
     = Some (Inl (WriteFailed ''nodir/b.json''), [''a.json'' \<mapsto> ''''], [])"
proof -
  have a: "'''' \<in> {'''', ''y'', ''Y''}" and b: "''yes'' \<notin> {'''', ''y'', ''Y''}"
    and c: "''Y'' \<in> {'''', ''y'', ''Y''}"
    by simp_all
  from saveResults_writes_only_after_y [of "''''" "{}" "concat \<circ> map url"
      "\<lparr>non200Urls = [], parsedUrls = []\<rparr>" _ Map.empty "''a.json''" "''''" "[]"] a
  have 1: "saveResults {} (concat \<circ> map url) \<lparr>non200Urls = [], parsedUrls = []\<rparr>
       ['''', ''a.json'', ''''] Map.empty
     = Some (Inr (), [''a.json'' \<mapsto> '''', ''parsed-urls.json'' \<mapsto> ''''], [])"
    by (simp add: or_default_def)
  from saveResults_writes_only_after_y [of "''yes''" "{}" "concat \<circ> map url"
      "\<lparr>non200Urls = [], parsedUrls = []\<rparr>" "[''a.json'', '''']" Map.empty] b
  have 2: "saveResults {} (concat \<circ> map url) \<lparr>non200Urls = [], parsedUrls = []\<rparr>
       [''yes'', ''a.json'', ''''] Map.empty
     = Some (Inr (), Map.empty, [''a.json'', ''''])"
    by simp
  from saveResults_writes_only_after_y [of "''Y''" "{''nodir/b.json''}" "concat \<circ> map url"
      "\<lparr>non200Urls = [], parsedUrls = []\<rparr>" _ Map.empty "''a.json''" "''nodir/b.json''" "[]"] c
  have 3: "saveResults {''nodir/b.json''} (concat \<circ> map url) \<lparr>non200Urls = [], parsedUrls = []\<rparr>
       [''Y'', ''a.json'', ''nodir/b.json''] Map.empty
     = Some (Inl (WriteFailed ''nodir/b.json''), [''a.json'' \<mapsto> ''''], [])"
    by (simp add: or_default_def)
  from 1 2 3 show ?thesis by simp
qed

text \<open>
  C10, as the claim has it, fails when a file cannot be written: after the answer \<open>y\<close>
  and the name \<open>nodir/x.json\<close>, which \<open>fs.writeFileSync\<close> cannot write, \<open>saveResults\<close>
  throws at the first write and neither file is written.
\<close>

theorem saveResults_y_unwritable_name:
  "saveResults {''nodir/x.json''} (concat \<circ> map url) \<lparr>non200Urls = [], parsedUrls = []\<rparr>
       [''y'', ''nodir/x.json'', ''parsed.json''] Map.empty
     = Some (Inl (WriteFailed ''nodir/x.json''), Map.empty, [])"
  by (simp add: saveResults_def ask_def or_default_def toLowerCase_def lower_char_def
      validateAsk_any saveToFile_def)

text \<open>
  C8, as the code has it. The four prompts of \<open>askConfigurations\<close> are asked in order,
  each again after every line its validator turns down, and the call returns exactly
  when each prompt has had a line that its validator accepts; the configuration holds
  those four answers (an empty line standing for the prompt's default). A line that is
  turned down is only asked for again: the result is a configuration, or no result yet
  while lines are missing. The sitemap URL starts with \<open>http\<close>; the concurrency limit
  is accepted exactly when \<open>Number\<close> of it is greater than 0 and less than 15, and the
  request delay exactly when \<open>Number\<close> of it is greater than 250, whether or not that
  number is an integer; the traversal order is \<open>random\<close> or \<open>sequential\<close>. This holds
  for every conversion function \<open>Number\<close>.
\<close>

theorem askConfigurations_reprompts_until_valid:
  "askConfigurations Number stdin = Some (cfg, rest) \<longleftrightarrow>
     (\<exists>bad1 l1 bad2 l2 bad3 l3 bad4 l4.
        stdin = bad1 @ l1 # bad2 @ l2 # bad3 @ l3 # bad4 @ l4 # rest
      \<and> all_rejected '''' (\<lambda>input. prefix ''http'' input) bad1
      \<and> all_rejected ''5'' (\<lambda>input. js_gt (Number input) 0 \<and> js_lt (Number input) 15) bad2
      \<and> all_rejected ''1000'' (\<lambda>input. js_gt (Number input) 250) bad3
      \<and> all_rejected ''sequential'' (\<lambda>input. input \<in> set [''random'', ''sequential'']) bad4
      \<and> cfg = \<lparr>sitemapUrl = or_default l1 '''', concurrencyLimit = or_default l2 ''5'',
                requestDelay = or_default l3 ''1000'',
                traversalOrder = or_default l4 ''sequential''\<rparr>
      \<and> prefix ''http'' (sitemapUrl cfg)
      \<and> js_gt (Number (concurrencyLimit cfg)) 0 \<and> js_lt (Number (concurrencyLimit cfg)) 15
      \<and> js_gt (Number (requestDelay cfg)) 250
      \<and> (traversalOrder cfg = ''random'' \<or> traversalOrder cfg = ''sequential''))"
  (is "?L \<longleftrightarrow> ?R")
proof
  assume ?L
  then obtain a1 in1 a2 in2 a3 in3 a4 where
    v1: "validateAsk '''' (\<lambda>input. prefix ''http'' input) stdin = Some (a1, in1)" and
    v2: "validateAsk ''5'' (\<lambda>input. js_gt (Number input) 0 \<and> js_lt (Number input) 15) in1
           = Some (a2, in2)" and
    v3: "validateAsk ''1000'' (\<lambda>input. js_gt (Number input) 250) in2 = Some (a3, in3)" and
    v4: "validateAsk ''sequential'' (\<lambda>input. input \<in> set [''random'', ''sequential'']) in3
           = Some (a4, rest)" and
    cfg: "cfg = \<lparr>sitemapUrl = a1, concurrencyLimit = a2, requestDelay = a3, traversalOrder = a4\<rparr>"
    by (auto simp add: askConfigurations_def split: option.splits prod.splits)
  from validateAsk_SomeD [OF v1] obtain bad1 l1 where
    1: "stdin = bad1 @ l1 # in1" "all_rejected '''' (\<lambda>input. prefix ''http'' input) bad1"
       "a1 = or_default l1 ''''" "prefix ''http'' a1"
    by blast
  from validateAsk_SomeD [OF v2] obtain bad2 l2 where
    2: "in1 = bad2 @ l2 # in2"
       "all_rejected ''5'' (\<lambda>input. js_gt (Number input) 0 \<and> js_lt (Number input) 15) bad2"
       "a2 = or_default l2 ''5''" "js_gt (Number a2) 0 \<and> js_lt (Number a2) 15"
    by blast
  from validateAsk_SomeD [OF v3] obtain bad3 l3 where
    3: "in2 = bad3 @ l3 # in3" "all_rejected ''1000'' (\<lambda>input. js_gt (Number input) 250) bad3"
       "a3 = or_default l3 ''1000''" "js_gt (Number a3) 250"
    by blast
  from validateAsk_SomeD [OF v4] obtain bad4 l4 where
    4: "in3 = bad4 @ l4 # rest"
       "all_rejected ''sequential'' (\<lambda>input. input \<in> set [''random'', ''sequential'']) bad4"
       "a4 = or_default l4 ''sequential''" "a4 \<in> set [''random'', ''sequential'']"
    by blast
  have "stdin = bad1 @ l1 # bad2 @ l2 # bad3 @ l3 # bad4 @ l4 # rest"
    using 1(1) 2(1) 3(1) 4(1) by simp
  moreover have "cfg = \<lparr>sitemapUrl = or_default l1 '''', concurrencyLimit = or_default l2 ''5'',
                requestDelay = or_default l3 ''1000'',
                traversalOrder = or_default l4 ''sequential''\<rparr>"
    using cfg 1(3) 2(3) 3(3) 4(3) by simp
  moreover have "prefix ''http'' (sitemapUrl cfg)"
    "js_gt (Number (concurrencyLimit cfg)) 0 \<and> js_lt (Number (concurrencyLimit cfg)) 15"
    "js_gt (Number (requestDelay cfg)) 250"
    "traversalOrder cfg = ''random'' \<or> traversalOrder cfg = ''sequential''"
    using cfg 1(4) 2(4) 3(4) 4(4) by simp_all
  ultimately show ?R
    using 1(2) 2(2) 3(2) 4(2) by blast
next
  assume ?R
  then obtain bad1 l1 bad2 l2 bad3 l3 bad4 l4 where
    stdin: "stdin = bad1 @ l1 # bad2 @ l2 # bad3 @ l3 # bad4 @ l4 # rest" and
    r1: "all_rejected '''' (\<lambda>input. prefix ''http'' input) bad1" and
    r2: "all_rejected ''5'' (\<lambda>input. js_gt (Number input) 0 \<and> js_lt (Number input) 15) bad2" and
    r3: "all_rejected ''1000'' (\<lambda>input. js_gt (Number input) 250) bad3" and
    r4: "all_rejected ''sequential'' (\<lambda>input. input \<in> set [''random'', ''sequential'']) bad4" and
    cfg: "cfg = \<lparr>sitemapUrl = or_default l1 '''', concurrencyLimit = or_default l2 ''5'',
                requestDelay = or_default l3 ''1000'',
                traversalOrder = or_default l4 ''sequential''\<rparr>" and
    ok: "prefix ''http'' (sitemapUrl cfg)"
      "js_gt (Number (concurrencyLimit cfg)) 0 \<and> js_lt (Number (concurrencyLimit cfg)) 15"
      "js_gt (Number (requestDelay cfg)) 250"
      "traversalOrder cfg = ''random'' \<or> traversalOrder cfg = ''sequential''"
    by blast
  have a1: "prefix ''http'' (or_default l1 '''')"
    and a2: "js_gt (Number (or_default l2 ''5'')) 0 \<and> js_lt (Number (or_default l2 ''5'')) 15"
    and a3: "js_gt (Number (or_default l3 ''1000'')) 250"
    and a4: "or_default l4 ''sequential'' \<in> set [''random'', ''sequential'']"
    using ok by (simp_all add: cfg)
  show ?L
    unfolding askConfigurations_def stdin
    by (simp only: validateAsk_accept [OF r1 a1] validateAsk_accept [OF r2 a2]
        validateAsk_accept [OF r3 a3] validateAsk_accept [OF r4 a4] cfg
        option.case prod.case)
qed

theorem askConfigurations_reprompts_until_valid_witness:
  "askConfigurations Number_decimal
     [''ftp://x'', ''http://x/s.xml'', ''15'', ''0'', ''abc'', ''14'', ''250'', '''', ''both'', ''random'', ''Y'']
   = Some (\<lparr>sitemapUrl = ''http://x/s.xml'', concurrencyLimit = ''14'',
            requestDelay = ''1000'', traversalOrder = ''random''\<rparr>, [''Y''])"
proof -
  have split: "[''ftp://x'', ''http://x/s.xml'', ''15'', ''0'', ''abc'', ''14'', ''250'', '''', ''both'', ''random'', ''Y'']
      = [''ftp://x''] @ ''http://x/s.xml'' # [''15'', ''0'', ''abc''] @ ''14'' # [''250''] @ ''''
          # [''both''] @ ''random'' # [''Y'']"
    by simp
  have r1: "all_rejected '''' (\<lambda>input. prefix ''http'' input) [''ftp://x'']"
    by (simp add: all_rejected_def or_default_def)
  have r2: "all_rejected ''5''
      (\<lambda>input. js_gt (Number_decimal input) 0 \<and> js_lt (Number_decimal input) 15) [''15'', ''0'', ''abc'']"
    by (simp add: Number_decimal_def unsigned_decimal_def is_digit_def js_gt_def js_lt_def
        all_rejected_def or_default_def)
  have r3: "all_rejected ''1000'' (\<lambda>input. js_gt (Number_decimal input) 250) [''250'']"
    by (simp add: Number_decimal_def unsigned_decimal_def is_digit_def js_gt_def js_lt_def
        all_rejected_def or_default_def)
  have r4: "all_rejected ''sequential'' (\<lambda>input. input \<in> set [''random'', ''sequential'']) [''both'']"
    by (simp add: all_rejected_def or_default_def)
  have cfg: "\<lparr>sitemapUrl = ''http://x/s.xml'', concurrencyLimit = ''14'',
            requestDelay = ''1000'', traversalOrder = ''random''\<rparr>
      = \<lparr>sitemapUrl = or_default ''http://x/s.xml'' '''', concurrencyLimit = or_default ''14'' ''5'',
                requestDelay = or_default '''' ''1000'',
                traversalOrder = or_default ''random'' ''sequential''\<rparr>"
    by (simp add: or_default_def)
  have a1: "prefix ''http'' (sitemapUrl \<lparr>sitemapUrl = ''http://x/s.xml'', concurrencyLimit = ''14'',
            requestDelay = ''1000'', traversalOrder = ''random''\<rparr>)"
    by simp
  have a2: "js_gt (Number_decimal (concurrencyLimit \<lparr>sitemapUrl = ''http://x/s.xml'', concurrencyLimit = ''14'',
            requestDelay = ''1000'', traversalOrder = ''random''\<rparr>)) 0
      \<and> js_lt (Number_decimal (concurrencyLimit \<lparr>sitemapUrl = ''http://x/s.xml'', concurrencyLimit = ''14'',
            requestDelay = ''1000'', traversalOrder = ''random''\<rparr>)) 15"
    by (simp add: Number_decimal_def unsigned_decimal_def is_digit_def js_gt_def js_lt_def)
  have a3: "js_gt (Number_decimal (requestDelay \<lparr>sitemapUrl = ''http://x/s.xml'', concurrencyLimit = ''14'',
            requestDelay = ''1000'', traversalOrder = ''random''\<rparr>)) 250"
    by (simp add: Number_decimal_def unsigned_decimal_def is_digit_def js_gt_def js_lt_def)
  have a4: "traversalOrder \<lparr>sitemapUrl = ''http://x/s.xml'', concurrencyLimit = ''14'',
            requestDelay = ''1000'', traversalOrder = ''random''\<rparr> = ''random''
      \<or> traversalOrder \<lparr>sitemapUrl = ''http://x/s.xml'', concurrencyLimit = ''14'',
            requestDelay = ''1000'', traversalOrder = ''random''\<rparr> = ''sequential''"
    by simp
  from split r1 r2 r3 r4 cfg a1 a2 a3 a4
  show ?thesis
    unfolding askConfigurations_reprompts_until_valid by blast
qed

text \<open>
  C8, as the claim has it, fails: the concurrency limit \<open>2.5\<close> and the request delay
  \<open>250.5\<close> are accepted at the first asking, and neither is an integer.
\<close>

theorem askConfigurations_accepts_non_integers:
  "askConfigurations Number_decimal [''http://x/s.xml'', ''2.5'', ''250.5'', ''random'']
     = Some (\<lparr>sitemapUrl = ''http://x/s.xml'', concurrencyLimit = ''2.5'',
              requestDelay = ''250.5'', traversalOrder = ''random''\<rparr>, [])
   \<and> Number_decimal ''2.5'' = Num (5 / 2) \<and> \<not> is_integer (Number_decimal ''2.5'')
   \<and> Number_decimal ''250.5'' = Num (501 / 2) \<and> \<not> is_integer (Number_decimal ''250.5'')"
proof -
  have floors: "\<lfloor>5 / 2 :: rat\<rfloor> = 2" "\<lfloor>501 / 2 :: rat\<rfloor> = 250"
    by (simp_all add: floor_eq_iff)
  have "askConfigurations Number_decimal [''http://x/s.xml'', ''2.5'', ''250.5'', ''random'']
     = Some (\<lparr>sitemapUrl = ''http://x/s.xml'', concurrencyLimit = ''2.5'',
              requestDelay = ''250.5'', traversalOrder = ''random''\<rparr>, [])"
    by (simp add: askConfigurations_def validateAsk_Cons Number_decimal_def
        unsigned_decimal_def is_digit_def js_gt_def js_lt_def or_default_def)
  moreover have "Number_decimal ''2.5'' = Num (5 / 2)" "Number_decimal ''250.5'' = Num (501 / 2)"
    by (simp_all add: Number_decimal_def unsigned_decimal_def is_digit_def)
  ultimately show ?thesis
    by (simp add: is_integer_def floors)
qed

section \<open>Properties of the worker pool\<close>

lemma worker_loop_empty: "urlQueue s = [] \<Longrightarrow> worker_loop s = (Done, s)"
  by (simp add: worker_loop.simps)

lemma worker_loop_paused:
  "isPaused s \<Longrightarrow> worker_loop s = (if urlQueue s = [] then Done else Sleeping (Num 1000), s)"
  by (simp add: worker_loop.simps split: list.splits)

lemma worker_loop_frame:
  "snd (worker_loop s) =
     s\<lparr>urlQueue := urlQueue (snd (worker_loop s)), requests := requests (snd (worker_loop s))\<rparr>"
proof (induction s rule: worker_loop.induct)
  case (1 s)
  show ?case
  proof (cases "urlQueue s")
    case Nil
    then show ?thesis by (simp add: worker_loop.simps [of s])
  next
    case (Cons u q)
    show ?thesis
    proof (cases "isPaused s \<or> u \<noteq> []")
      case True
      with Cons show ?thesis by (auto simp add: worker_loop.simps [of s])
    next
      case False
      with Cons have eq: "worker_loop s = worker_loop (s\<lparr>urlQueue := q\<rparr>)"
        by (simp add: worker_loop.simps [of s])
      from False Cons have "snd (worker_loop (s\<lparr>urlQueue := q\<rparr>)) =
        (s\<lparr>urlQueue := q\<rparr>)\<lparr>urlQueue := urlQueue (snd (worker_loop (s\<lparr>urlQueue := q\<rparr>))),
            requests := requests (snd (worker_loop (s\<lparr>urlQueue := q\<rparr>)))\<rparr>"
        by (intro "1.IH") simp_all
      then show ?thesis by (simp add: eq)
    qed
  qed
qed

lemma worker_loop_result:
  "worker_loop s = (w, s') \<Longrightarrow>
     requests s' @ nonempty (urlQueue s') = requests s @ nonempty (urlQueue s)
     \<and> (w = Done \<longrightarrow> urlQueue s' = [] \<and> requests s' = requests s)
     \<and> (\<forall>ms. w = Sleeping ms \<longrightarrow> ms = Num 1000 \<and> isPaused s \<and> requests s' = requests s)
     \<and> (\<forall>u nx. w = Fetching u nx \<longrightarrow> requests s' = requests s @ [u] \<and> u \<noteq> [] \<and> \<not> isPaused s)
     \<and> (\<forall>u nx r. w \<noteq> Returned u nx r)
     \<and> (urlQueue s = [] \<longrightarrow> urlQueue s' = [])"
proof (induction s arbitrary: w s' rule: worker_loop.induct)
  case (1 s)
  show ?case
  proof (cases "urlQueue s")
    case Nil
    with "1.prems" show ?thesis by (auto simp add: worker_loop.simps [of s])
  next
    case (Cons u q)
    show ?thesis
    proof (cases "isPaused s \<or> u \<noteq> []")
      case True
      with Cons "1.prems" show ?thesis
        by (cases "isPaused s") (auto simp add: worker_loop.simps [of s] Let_def)
    next
      case False
      with Cons "1.prems" have eq: "worker_loop (s\<lparr>urlQueue := q\<rparr>) = (w, s')"
        by (simp add: worker_loop.simps [of s])
      from False Cons have "requests s' @ nonempty (urlQueue s') =
           requests (s\<lparr>urlQueue := q\<rparr>) @ nonempty (urlQueue (s\<lparr>urlQueue := q\<rparr>))
     \<and> (w = Done \<longrightarrow> urlQueue s' = [] \<and> requests s' = requests (s\<lparr>urlQueue := q\<rparr>))
     \<and> (\<forall>ms. w = Sleeping ms \<longrightarrow> ms = Num 1000 \<and> isPaused (s\<lparr>urlQueue := q\<rparr>) \<and> requests s' = requests (s\<lparr>urlQueue := q\<rparr>))
     \<and> (\<forall>u nx. w = Fetching u nx \<longrightarrow> requests s' = requests (s\<lparr>urlQueue := q\<rparr>) @ [u] \<and> u \<noteq> [] \<and> \<not> isPaused (s\<lparr>urlQueue := q\<rparr>))
     \<and> (\<forall>u nx r. w \<noteq> Returned u nx r)
     \<and> (urlQueue (s\<lparr>urlQueue := q\<rparr>) = [] \<longrightarrow> urlQueue s' = [])"
        by (intro "1.IH" [OF Cons _ refl refl _ eq]) simp_all
      with False Cons show ?thesis by simp
    qed
  qed
qed


lemma worker_loop_fields:
  assumes "worker_loop s = (w, s')"
  shows "non200Urls s' = non200Urls s" "parsedUrls s' = parsedUrls s" "total s' = total s"
    "processed s' = processed s" "statusCounts s' = statusCounts s" "isPaused s' = isPaused s"
    "delay_ms s' = delay_ms s" "reports s' = reports s" "workers s' = workers s"
proof -
  have "s' = s\<lparr>urlQueue := urlQueue s', requests := requests s'\<rparr>"
    using worker_loop_frame [of s] assms by simp
  then obtain q r where "s' = s\<lparr>urlQueue := q, requests := r\<rparr>" ..
  then show "non200Urls s' = non200Urls s" "parsedUrls s' = parsedUrls s" "total s' = total s"
    "processed s' = processed s" "statusCounts s' = statusCounts s" "isPaused s' = isPaused s"
    "delay_ms s' = delay_ms s" "reports s' = reports s" "workers s' = workers s"
    by simp_all
qed

lemma worker_loop_holds:
  assumes "worker_loop s = (w, s')"
  shows "length (requests s') = length (requests s) + (if holds_url w then 1 else 0)"
  using worker_loop_result [OF assms] by (cases w) auto

lemma filter_update_length:
  "i < length xs \<Longrightarrow>
     length (filter P (xs[i := w])) + (if P (xs ! i) then 1 else 0)
       = length (filter P xs) + (if P w then 1 else 0)"
proof (induction xs arbitrary: i)
  case Nil
  then show ?case by simp
next
  case (Cons x xs)
  then show ?case by (cases i) auto
qed

lemma in_flight_set_worker:
  "i < length (workers s) \<Longrightarrow>
     in_flight (set_worker i w s) + (if holds_url (workers s ! i) then 1 else 0)
       = in_flight s + (if holds_url w then 1 else 0)"
  unfolding in_flight_def set_worker_def by (simp add: filter_update_length)

lemma js_or_0: "js_or a (0::nat) = (case a of None \<Rightarrow> 0 | Some n \<Rightarrow> n)"
  by (simp add: js_or_def split: option.splits)

lemma sum_update:
  "sum_list (map snd (AList.update k v h)) + count_of h k = sum_list (map snd h) + v"
  by (induction h) (auto simp add: count_of_def js_or_0)

lemma count_of_update:
  "count_of (AList.update k v h) k' = (if k' = k then v else count_of h k')"
  by (simp add: count_of_def js_or_0 update_conv')

lemma sum_over_keys:
  "distinct (map fst h) \<Longrightarrow> (\<Sum>k \<in> fst ` set h. count_of h k) = sum_list (map snd h)"
proof (induction h)
  case Nil
  then show ?case by simp
next
  case (Cons p h)
  obtain k v where p: "p = (k, v)" by (cases p)
  from Cons.prems have k: "k \<notin> fst ` set h" and d: "distinct (map fst h)"
    by (simp_all add: p)
  have "(\<Sum>k' \<in> fst ` set h. count_of (p # h) k') = (\<Sum>k' \<in> fst ` set h. count_of h k')"
    using k by (intro sum.cong) (auto simp add: count_of_def p)
  with k Cons.IH [OF d] show ?case
    by (simp add: p count_of_def js_or_0)
qed

lemma pool_inv_new: "pool_inv urls (new_pool urls d)"
  by (simp add: pool_inv_def new_pool_def in_flight_def)

lemma pool_inv_call_worker:
  assumes "pool_inv urls s"
  shows "pool_inv urls (call_worker s)"
proof -
  obtain w s1 where wl: "worker_loop s = (w, s1)" by (cases "worker_loop s")
  note f = worker_loop_fields [OF wl] and r = worker_loop_result [OF wl]
    and h = worker_loop_holds [OF wl]
  have cw: "call_worker s = s1\<lparr>workers := workers s @ [w]\<rparr>"
    by (simp add: call_worker_def wl f)
  have "in_flight (call_worker s) = in_flight s + (if holds_url w then 1 else 0)"
    by (simp add: cw in_flight_def)
  moreover have "urlQueue s1 = []" if "Done \<in> set (workers s) \<or> w = Done"
    using that assms r by (auto simp add: pool_inv_def)
  ultimately show ?thesis
    using assms r h unfolding pool_inv_def by (auto simp add: cw f)
qed

lemma call_worker_length: "length (workers (call_worker s)) = Suc (length (workers s))"
proof -
  obtain w s1 where wl: "worker_loop s = (w, s1)" by (cases "worker_loop s")
  show ?thesis by (simp add: call_worker_def wl worker_loop_fields [OF wl])
qed

lemma pool_inv_spawn: "pool_inv urls s \<Longrightarrow> pool_inv urls (spawn n s)"
  by (induction n arbitrary: s) (simp_all add: pool_inv_call_worker)

lemma spawn_length: "length (workers (spawn n s)) = length (workers s) + n"
  by (induction n arbitrary: s) (simp_all add: call_worker_length)

lemma pool_inv_start: "pool_inv urls (start_pool urls d n)"
  by (simp add: start_pool_def pool_inv_spawn pool_inv_new)

lemma start_pool_length: "length (workers (start_pool urls d n)) = n"
  by (simp add: start_pool_def spawn_length new_pool_def)


lemma step_Timer:
  "step (Timer i) s = Some s' \<longleftrightarrow>
     i < length (workers s) \<and> (\<exists>ms. workers s ! i = Sleeping ms)
     \<and> s' = set_worker i (fst (worker_loop s)) (snd (worker_loop s))"
  by (auto simp add: step_def split_beta Let_def split: wstate.splits)

lemma step_Settle:
  "step (Settle i res) s = Some s' \<longleftrightarrow>
     i < length (workers s) \<and>
     (\<exists>u nx. workers s ! i = Fetching u nx
        \<and> s' = set_worker i (Returned u nx (fst (validateURL u res s))) (snd (validateURL u res s)))"
  by (auto simp add: step_def split_beta Let_def split: wstate.splits)

lemma step_Continue:
  "step (Continue i) s = Some s' \<longleftrightarrow>
     i < length (workers s) \<and>
     (\<exists>u nx r. workers s ! i = Returned u nx r
        \<and> s' = set_worker i (Sleeping (delay_ms s)) (worker_continue u nx r s))"
  by (auto simp add: step_def split: wstate.splits)

lemma step_Pause: "step (Pause b) s = Some s' \<longleftrightarrow> s' = s\<lparr>isPaused := b\<rparr>"
  by (auto simp add: step_def)

lemma validateURL_pool:
  fixes s :: pool
  shows "snd (validateURL u res s) =
     s\<lparr>non200Urls := non200Urls (snd (validateURL u res s)),
       parsedUrls := parsedUrls (snd (validateURL u res s))\<rparr>"
  by (cases res) (simp_all add: validateURL_def Let_def)

lemma set_worker_fields:
  "urlQueue (set_worker i w s) = urlQueue s" "requests (set_worker i w s) = requests s"
  "processed (set_worker i w s) = processed s" "statusCounts (set_worker i w s) = statusCounts s"
  "total (set_worker i w s) = total s" "isPaused (set_worker i w s) = isPaused s"
  "workers (set_worker i w s) = (workers s)[i := w]"
  by (simp_all add: set_worker_def)

lemma Done_in_update:
  "i < length ws \<Longrightarrow> ws ! i \<noteq> Done \<Longrightarrow> w \<noteq> Done \<Longrightarrow> Done \<in> set (ws[i := w]) \<longleftrightarrow> Done \<in> set ws"
  by (auto simp add: set_conv_nth nth_list_update) (metis nth_list_update_neq length_list_update)+

lemma pool_inv_step:
  assumes "pool_inv urls s" and "step e s = Some s'"
  shows "pool_inv urls s'"
proof (cases e)
  case (Timer i)
  with assms(2) obtain ms where i: "i < length (workers s)" and ws: "workers s ! i = Sleeping ms"
    and s': "s' = set_worker i (fst (worker_loop s)) (snd (worker_loop s))"
    by (auto simp add: step_Timer)
  obtain w s1 where wl: "worker_loop s = (w, s1)" by (cases "worker_loop s")
  note f = worker_loop_fields [OF wl] and r = worker_loop_result [OF wl]
    and h = worker_loop_holds [OF wl]
  have s'': "s' = set_worker i w s1" by (simp add: s' wl)
  have "in_flight s' = in_flight s + (if holds_url w then 1 else 0)"
    using in_flight_set_worker [of i s1 w] i ws
    by (simp add: s'' f in_flight_def)
  moreover have "urlQueue s1 = []" if "Done \<in> set ((workers s)[i := w])"
  proof (cases "w = Done")
    case True
    with r show ?thesis by simp
  next
    case False
    with that i ws have "Done \<in> set (workers s)"
      by (simp add: Done_in_update)
    with assms(1) r show ?thesis by (simp add: pool_inv_def)
  qed
  ultimately show ?thesis
    using assms(1) r h unfolding pool_inv_def by (simp add: s'' set_worker_fields f)
next
  case (Settle i res)
  with assms(2) obtain u nx where i: "i < length (workers s)" and ws: "workers s ! i = Fetching u nx"
    and s': "s' = set_worker i (Returned u nx (fst (validateURL u res s))) (snd (validateURL u res s))"
    by (auto simp add: step_Settle)
  obtain a b where v: "snd (validateURL u res s) = s\<lparr>non200Urls := a, parsedUrls := b\<rparr>"
    using validateURL_pool [of u res s] by blast
  have "in_flight s' = in_flight s"
    using in_flight_set_worker [of i "snd (validateURL u res s)" "Returned u nx (fst (validateURL u res s))"] i ws
    by (simp add: s' v in_flight_def)
  moreover have "Done \<in> set ((workers s)[i := Returned u nx (fst (validateURL u res s))]) \<longleftrightarrow> Done \<in> set (workers s)"
    using i ws by (simp add: Done_in_update)
  ultimately show ?thesis
    using assms(1) unfolding pool_inv_def by (simp add: s' set_worker_fields v)
next
  case (Continue i)
  with assms(2) obtain u nx r where i: "i < length (workers s)" and ws: "workers s ! i = Returned u nx r"
    and s': "s' = set_worker i (Sleeping (delay_ms s)) (worker_continue u nx r s)"
    by (auto simp add: step_Continue)
  have wc: "urlQueue (worker_continue u nx r s) = urlQueue s"
    "requests (worker_continue u nx r s) = requests s"
    "processed (worker_continue u nx r s) = processed s + 1"
    "total (worker_continue u nx r s) = total s"
    "workers (worker_continue u nx r s) = workers s"
    "statusCounts (worker_continue u nx r s) =
       AList.update (status r) (count_of (statusCounts s) (status r) + 1) (statusCounts s)"
    by (simp_all add: worker_continue_def Let_def count_of_def)
  have "in_flight s' + 1 = in_flight s"
    using in_flight_set_worker [of i "worker_continue u nx r s" "Sleeping (delay_ms s)"] i ws
    by (simp add: s' wc in_flight_def)
  moreover have "Done \<in> set ((workers s)[i := Sleeping (delay_ms s)]) \<longleftrightarrow> Done \<in> set (workers s)"
    using i ws by (simp add: Done_in_update)
  moreover have "sum_list (map snd (statusCounts (worker_continue u nx r s)))
      = sum_list (map snd (statusCounts s)) + 1"
    using sum_update [of "status r" "count_of (statusCounts s) (status r) + 1" "statusCounts s"]
    by (simp add: wc)
  moreover have "distinct (map fst (statusCounts (worker_continue u nx r s)))"
    using assms(1) by (simp add: wc pool_inv_def distinct_update)
  ultimately show ?thesis
    using assms(1) unfolding pool_inv_def by (simp add: s' set_worker_fields wc)
next
  case (Pause b)
  with assms show ?thesis by (auto simp add: step_Pause pool_inv_def in_flight_def)
qed

lemma step_length: "step e s = Some s' \<Longrightarrow> length (workers s') = length (workers s)"
proof (cases e)
  case (Timer i)
  assume "step e s = Some s'"
  with Timer have s': "s' = set_worker i (fst (worker_loop s)) (snd (worker_loop s))"
    by (simp add: step_Timer)
  obtain w s1 where wl: "worker_loop s = (w, s1)" by (cases "worker_loop s")
  show ?thesis by (simp add: s' wl set_worker_fields worker_loop_fields [OF wl])
next
  case (Settle i res)
  assume "step e s = Some s'"
  with Settle obtain u w where s': "s' = set_worker i w (snd (validateURL u res s))"
    by (auto simp add: step_Settle)
  obtain a b where v: "snd (validateURL u res s) = s\<lparr>non200Urls := a, parsedUrls := b\<rparr>"
    using validateURL_pool [of u res s] by blast
  show ?thesis by (simp add: s' v set_worker_fields)
next
  case (Continue i)
  assume "step e s = Some s'"
  with Continue show ?thesis
    by (auto simp add: step_Continue set_worker_fields worker_continue_def Let_def)
next
  case (Pause b)
  assume "step e s = Some s'"
  with Pause show ?thesis by (auto simp add: step_Pause)
qed

lemma pool_inv_exec: "exec es s = Some s' \<Longrightarrow> pool_inv urls s \<Longrightarrow> pool_inv urls s'"
  by (induction es arbitrary: s) (auto split: option.splits dest: pool_inv_step)

lemma exec_length: "exec es s = Some s' \<Longrightarrow> length (workers s') = length (workers s)"
  by (induction es arbitrary: s) (auto split: option.splits dest: step_length)

lemma finished_in_flight: "finished s \<Longrightarrow> in_flight s = 0"
  by (auto simp add: finished_def in_flight_def list_all_iff filter_empty_conv)

lemma finished_Done: "finished s \<Longrightarrow> workers s \<noteq> [] \<Longrightarrow> Done \<in> set (workers s)"
  by (cases "workers s") (auto simp add: finished_def)

lemma step_statusCounts:
  assumes "step e s = Some s'"
  shows "statusCounts s' = statusCounts s
    \<or> (\<exists>k. statusCounts s' = AList.update k (count_of (statusCounts s) k + 1) (statusCounts s))"
proof (cases e)
  case (Timer i)
  obtain w s1 where wl: "worker_loop s = (w, s1)" by (cases "worker_loop s")
  from assms Timer show ?thesis
    by (simp add: step_Timer wl set_worker_fields worker_loop_fields [OF wl])
next
  case (Settle i res)
  with assms obtain u w where s': "s' = set_worker i w (snd (validateURL u res s))"
    by (auto simp add: step_Settle)
  obtain a b where v: "snd (validateURL u res s) = s\<lparr>non200Urls := a, parsedUrls := b\<rparr>"
    using validateURL_pool [of u res s] by blast
  show ?thesis by (simp add: s' v set_worker_fields)
next
  case (Continue i)
  with assms show ?thesis
    by (auto simp add: step_Continue set_worker_fields worker_continue_def Let_def count_of_def)
next
  case (Pause b)
  with assms show ?thesis by (auto simp add: step_Pause)
qed

lemma paused_step:
  assumes "isPaused s" and "step e s = Some s'" and "e \<noteq> Pause False"
  shows "isPaused s' \<and> urlQueue s' = urlQueue s \<and> requests s' = requests s"
proof (cases e)
  case (Timer i)
  with assms show ?thesis
    by (simp add: step_Timer worker_loop_paused set_worker_fields)
next
  case (Settle i res)
  with assms obtain u w where s': "s' = set_worker i w (snd (validateURL u res s))"
    by (auto simp add: step_Settle)
  obtain a b where v: "snd (validateURL u res s) = s\<lparr>non200Urls := a, parsedUrls := b\<rparr>"
    using validateURL_pool [of u res s] by blast
  from assms(1) show ?thesis by (simp add: s' v set_worker_fields)
next
  case (Continue i)
  with assms show ?thesis
    by (auto simp add: step_Continue set_worker_fields worker_continue_def Let_def)
next
  case (Pause b)
  with assms show ?thesis by (auto simp add: step_Pause)
qed

lemma paused_exec:
  "isPaused s \<Longrightarrow> exec es s = Some s' \<Longrightarrow> Pause False \<notin> set es \<Longrightarrow>
     isPaused s' \<and> urlQueue s' = urlQueue s \<and> requests s' = requests s"
proof (induction es arbitrary: s)
  case Nil
  then show ?case by simp
next
  case (Cons e es)
  from Cons.prems(2) obtain s1 where 1: "step e s = Some s1" and 2: "exec es s1 = Some s'"
    by (auto split: option.splits)
  from Cons.prems(3) have "e \<noteq> Pause False" "Pause False \<notin> set es" by auto
  with paused_step [OF Cons.prems(1) 1] Cons.IH [OF _ 2] show ?case by simp
qed

lemma done_step:
  assumes "i < length (workers s)" and "workers s ! i = Done" and "step e s = Some s'"
  shows "i < length (workers s') \<and> workers s' ! i = Done \<and> worker_of e \<noteq> Some i"
proof (cases e)
  case (Timer j)
  obtain w s1 where wl: "worker_loop s = (w, s1)" by (cases "worker_loop s")
  from assms Timer show ?thesis
    by (auto simp add: step_Timer wl set_worker_fields worker_loop_fields [OF wl] nth_list_update)
next
  case (Settle j res)
  with assms obtain u w where s': "s' = set_worker j w (snd (validateURL u res s))"
    and j: "workers s ! j = Fetching u (case workers s ! j of Fetching u nx \<Rightarrow> nx)"
    by (auto simp add: step_Settle)
  obtain a b where v: "snd (validateURL u res s) = s\<lparr>non200Urls := a, parsedUrls := b\<rparr>"
    using validateURL_pool [of u res s] by blast
  from assms(1,2) j have "j \<noteq> i" by auto
  with assms(1,2) Settle show ?thesis by (simp add: s' v set_worker_fields)
next
  case (Continue j)
  with assms show ?thesis
    by (auto simp add: step_Continue set_worker_fields worker_continue_def Let_def
        nth_list_update)
next
  case (Pause b)
  with assms show ?thesis by (auto simp add: step_Pause)
qed

lemma done_exec:
  "i < length (workers s) \<Longrightarrow> workers s ! i = Done \<Longrightarrow> exec es s = Some s' \<Longrightarrow>
     i < length (workers s') \<and> workers s' ! i = Done \<and> (\<forall>e \<in> set es. worker_of e \<noteq> Some i)"
proof (induction es arbitrary: s)
  case Nil
  then show ?case by simp
next
  case (Cons e es)
  from Cons.prems(3) obtain s1 where 1: "step e s = Some s1" and 2: "exec es s1 = Some s'"
    by (auto split: option.splits)
  from done_step [OF Cons.prems(1,2) 1] Cons.IH [OF _ _ 2] show ?case by simp
qed

lemma worker_loop_shorter:
  "worker_loop s = (w, s') \<Longrightarrow>
     length (urlQueue s') \<le> length (urlQueue s)
     \<and> (\<forall>u nx. w = Fetching u nx \<longrightarrow> length (urlQueue s') < length (urlQueue s))"
proof (induction s arbitrary: w s' rule: worker_loop.induct)
  case (1 s)
  show ?case
  proof (cases "urlQueue s")
    case Nil
    with "1.prems" show ?thesis by (auto simp add: worker_loop.simps [of s])
  next
    case (Cons u q)
    show ?thesis
    proof (cases "isPaused s \<or> u \<noteq> []")
      case True
      with Cons "1.prems" show ?thesis
        by (cases "isPaused s") (auto simp add: worker_loop.simps [of s] Let_def)
    next
      case False
      with Cons "1.prems" have eq: "worker_loop (s\<lparr>urlQueue := q\<rparr>) = (w, s')"
        by (simp add: worker_loop.simps [of s])
      from False Cons have "length (urlQueue s') \<le> length (urlQueue (s\<lparr>urlQueue := q\<rparr>))
     \<and> (\<forall>u nx. w = Fetching u nx \<longrightarrow> length (urlQueue s') < length (urlQueue (s\<lparr>urlQueue := q\<rparr>)))"
        by (intro "1.IH" [OF Cons _ refl refl _ eq]) simp_all
      with Cons show ?thesis by auto
    qed
  qed
qed

lemma weight_update:
  "i < length ws \<Longrightarrow>
     sum_list (map weight (ws[i := w])) + weight (ws ! i) = sum_list (map weight ws) + weight w"
proof (induction ws arbitrary: i)
  case Nil
  then show ?case by simp
next
  case (Cons x xs)
  then show ?case by (cases i) auto
qed

lemma not_finished: "\<not> finished s \<Longrightarrow> \<exists>i < length (workers s). workers s ! i \<noteq> Done"
  by (auto simp add: finished_def list_all_iff in_set_conv_nth)

lemma can_step:
  assumes "\<not> isPaused s" and "\<not> finished s"
  shows "\<exists>e s1. step e s = Some s1 \<and> \<not> isPaused s1 \<and> potential s1 < potential s"
proof -
  from not_finished [OF assms(2)] obtain i where i: "i < length (workers s)"
    and nd: "workers s ! i \<noteq> Done" by blast
  show ?thesis
  proof (cases "workers s ! i")
    case (Sleeping ms)
    obtain w s1 where wl: "worker_loop s = (w, s1)" by (cases "worker_loop s")
    note f = worker_loop_fields [OF wl] and r = worker_loop_result [OF wl]
      and l = worker_loop_shorter [OF wl]
    have st: "step (Timer i) s = Some (set_worker i w s1)"
      using i Sleeping by (simp add: step_Timer wl)
    have "sum_list (map weight ((workers s)[i := w])) + 1 = sum_list (map weight (workers s)) + weight w"
      using weight_update [OF i, of w] Sleeping by simp
    moreover have "3 * length (urlQueue s1) + weight w < 3 * length (urlQueue s) + 1"
      using r l assms(1) by (cases w) auto
    ultimately have "potential (set_worker i w s1) < potential s"
      by (simp add: potential_def set_worker_fields f)
    moreover have "\<not> isPaused (set_worker i w s1)"
      using assms(1) by (simp add: set_worker_fields f)
    ultimately show ?thesis using st by blast
  next
    case (Fetching u nx)
    let ?s1 = "set_worker i (Returned u nx (fst (validateURL u (Resolved 200) s)))
                 (snd (validateURL u (Resolved 200) s))"
    obtain a b where v: "snd (validateURL u (Resolved 200) s) = s\<lparr>non200Urls := a, parsedUrls := b\<rparr>"
      using validateURL_pool [of u "Resolved 200" s] by blast
    have st: "step (Settle i (Resolved 200)) s = Some ?s1"
      using i Fetching by (simp add: step_Settle)
    have "sum_list (map weight ((workers s)[i := Returned u nx (fst (validateURL u (Resolved 200) s))])) + 3
        = sum_list (map weight (workers s)) + 2"
      using weight_update [OF i, of "Returned u nx (fst (validateURL u (Resolved 200) s))"] Fetching
      by simp
    then have "potential ?s1 < potential s"
      by (simp add: potential_def set_worker_fields v)
    moreover have "\<not> isPaused ?s1"
      using assms(1) by (simp add: set_worker_fields v)
    ultimately show ?thesis using st by blast
  next
    case (Returned u nx r)
    let ?s1 = "set_worker i (Sleeping (delay_ms s)) (worker_continue u nx r s)"
    have wc: "urlQueue (worker_continue u nx r s) = urlQueue s"
      "workers (worker_continue u nx r s) = workers s"
      "isPaused (worker_continue u nx r s) = isPaused s"
      by (simp_all add: worker_continue_def Let_def)
    have st: "step (Continue i) s = Some ?s1"
      using i Returned by (simp add: step_Continue)
    have "sum_list (map weight ((workers s)[i := Sleeping (delay_ms s)])) + 2
        = sum_list (map weight (workers s)) + 1"
      using weight_update [OF i, of "Sleeping (delay_ms s)"] Returned by simp
    then have "potential ?s1 < potential s"
      by (simp add: potential_def set_worker_fields wc)
    moreover have "\<not> isPaused ?s1"
      using assms(1) by (simp add: set_worker_fields wc)
    ultimately show ?thesis using st by blast
  next
    case Done
    with nd show ?thesis by simp
  qed
qed

lemma can_finish_unpaused:
  "\<not> isPaused s \<Longrightarrow> \<exists>es s'. exec es s = Some s' \<and> finished s'"
proof (induction "potential s" arbitrary: s rule: less_induct)
  case less
  show ?case
  proof (cases "finished s")
    case True
    then have "exec [] s = Some s \<and> finished s" by simp
    then show ?thesis by blast
  next
    case False
    from can_step [OF less.prems False] obtain e s1 where
      st: "step e s = Some s1" and p: "\<not> isPaused s1" and m: "potential s1 < potential s"
      by blast
    from less.hyps [OF m p] obtain es s' where "exec es s1 = Some s'" "finished s'"
      by blast
    with st have "exec (e # es) s = Some s' \<and> finished s'" by simp
    then show ?thesis by blast
  qed
qed

lemma can_finish: "\<exists>es s'. exec es s = Some s' \<and> finished s'"
proof -
  have "\<not> isPaused (s\<lparr>isPaused := False\<rparr>)" by simp
  from can_finish_unpaused [OF this] obtain es s' where
    "exec es (s\<lparr>isPaused := False\<rparr>) = Some s'" "finished s'" by blast
  then have "exec (Pause False # es) s = Some s' \<and> finished s'"
    by (simp add: step_def)
  then show ?thesis by blast
qed

text \<open>
  A concurrency limit that its validator accepts starts at least one worker and at most
  fifteen (a limit such as 14.5 gives fifteen rounds of the loop).
\<close>

lemma rounds_accepted:
  assumes "js_gt c 0" and "js_lt c 15"
  shows "\<exists>n. rounds c = Some n \<and> 0 < n \<and> n \<le> 15"
proof (cases c)
  case (Num q)
  with assms have q: "0 < q" "q < 15"
    by (simp_all add: js_gt_def js_lt_def)
  then have "0 < \<lceil>q\<rceil>" "\<lceil>q\<rceil> \<le> 15"
    by (simp_all add: ceiling_le_iff)
  then have "0 < nat \<lceil>q\<rceil> \<and> nat \<lceil>q\<rceil> \<le> 15"
    by linarith
  then show ?thesis by (simp only: rounds_def Num jsnum.case) blast
qed (use assms in \<open>simp_all add: js_gt_def js_lt_def\<close>)

section \<open>The claims about the worker pool\<close>

text \<open>
  C3, as the code has it. In every state that a run over \<open>urls\<close> with \<open>n\<close> workers can
  reach, under any interleaving of the workers, any results of the requests and any
  changes of the pause flag: the URLs passed to \<open>validateURL\<close> so far, followed by the
  non-empty URLs still in the queue, are the non-empty input URLs in input order, so each
  non-empty input URL is popped and validated exactly once and none twice; and the run
  can still be brought to its end. When all workers have returned (and there is at least
  one), the queue is empty, exactly the non-empty input URLs have been validated, and
  \<open>processed\<close> is their number. An empty string in the input is popped and, being falsy,
  skipped by \<open>if (url)\<close>; when the input has none, \<open>processed\<close> equals \<open>total\<close>, the
  input count.
\<close>

theorem pool_validates_each_nonempty_url_once:
  assumes "exec es (start_pool urls d n) = Some s"
  shows "requests s @ nonempty (urlQueue s) = nonempty urls
    \<and> total s = length urls
    \<and> (\<exists>es' s'. exec es' s = Some s' \<and> finished s')
    \<and> (0 < n \<and> finished s \<longrightarrow>
         urlQueue s = [] \<and> requests s = nonempty urls
         \<and> processed s = length (nonempty urls)
         \<and> ([] \<notin> set urls \<longrightarrow> requests s = urls \<and> processed s = total s))"
proof -
  from assms have inv: "pool_inv urls s"
    by (rule pool_inv_exec) (rule pool_inv_start)
  from assms have len: "length (workers s) = n"
    by (simp add: exec_length start_pool_length)
  have "urlQueue s = [] \<and> requests s = nonempty urls \<and> processed s = length (nonempty urls)
      \<and> ([] \<notin> set urls \<longrightarrow> requests s = urls \<and> processed s = total s)"
    if "0 < n" "finished s"
  proof -
    from that len have "Done \<in> set (workers s)"
      by (intro finished_Done) auto
    with inv have q: "urlQueue s = []" by (simp add: pool_inv_def)
    with inv have r: "requests s = nonempty urls" by (simp add: pool_inv_def)
    from inv that(2) have p: "processed s = length (requests s)"
      by (simp add: pool_inv_def finished_in_flight)
    have "nonempty urls = urls" if "[] \<notin> set urls"
      using that by (simp add: filter_id_conv) metis
    with q r p inv show ?thesis by (auto simp add: pool_inv_def)
  qed
  moreover from inv have "requests s @ nonempty (urlQueue s) = nonempty urls" "total s = length urls"
    by (simp_all add: pool_inv_def)
  moreover have "\<exists>es' s'. exec es' s = Some s' \<and> finished s'"
    by (rule can_finish)
  ultimately show ?thesis by blast
qed

theorem pool_validates_each_nonempty_url_once_witness:
  "exec [Settle 0 (Resolved 200), Continue 0, Timer 0, Settle 0 (Rejected (Some 404)),
         Continue 0, Timer 0]
     (start_pool [''http://a.test/'', '''', ''http://b.test/''] (Num 300) 1)
   = Some \<lparr>non200Urls = [\<lparr>url = ''http://b.test/'', status = 404\<rparr>],
           parsedUrls = [\<lparr>url = ''http://a.test/'', status = 200\<rparr>], urlQueue = [],
           total = 3, processed = 2, statusCounts = [(200, 1), (404, 1)],
           isPaused = False, delay_ms = Num 300,
           requests = [''http://a.test/'', ''http://b.test/''],
           reports =
             [\<lparr>r_processed = 1, r_total = 3, r_url = ''http://a.test/'',
               r_status = 200, r_statusCounts = [(200, 1)],
               r_urls = ['''', ''http://b.test/'']\<rparr>,
              \<lparr>r_processed = 2, r_total = 3, r_url = ''http://b.test/'',
               r_status = 404, r_statusCounts = [(200, 1), (404, 1)],
               r_urls = []\<rparr>],
           workers = [Done]\<rparr>
   \<and> [''http://a.test/'', ''http://b.test/'']
       = nonempty [''http://a.test/'', '''', ''http://b.test/'']
   \<and> (2::nat) = length (nonempty [''http://a.test/'', '''', ''http://b.test/''])"
  (is "exec ?es ?init = Some ?S \<and> _ \<and> _")
proof -
  have run: "exec ?es ?init = Some ?S"
    by code_simp
  have fin: "(0::nat) < 1 \<and> finished ?S"
    by (simp add: finished_def)
  from pool_validates_each_nonempty_url_once [OF run] fin
  have "requests ?S = nonempty [''http://a.test/'', '''', ''http://b.test/'']
      \<and> processed ?S = length (nonempty [''http://a.test/'', '''', ''http://b.test/''])"
    by blast
  with run show ?thesis by simp
qed

text \<open>
  C3, as the claim has it, fails on an input with an empty string: of the two entries of
  \<open>[http://a.test/, \<close>\<open>]\<close> the second is popped and never passed to \<open>validateURL\<close>, and
  when the one worker has returned \<open>processed\<close> is 1 and \<open>total\<close> is 2.
\<close>

theorem pool_skips_empty_url:
  "exec [Settle 0 (Resolved 200), Continue 0, Timer 0]
     (start_pool [''http://a.test/'', ''''] (Num 300) 1)
   = Some \<lparr>non200Urls = [], parsedUrls = [\<lparr>url = ''http://a.test/'', status = 200\<rparr>],
           urlQueue = [], total = 2, processed = 1, statusCounts = [(200, 1)],
           isPaused = False, delay_ms = Num 300, requests = [''http://a.test/''],
           reports =
             [\<lparr>r_processed = 1, r_total = 2, r_url = ''http://a.test/'',
               r_status = 200, r_statusCounts = [(200, 1)], r_urls = ['''']\<rparr>],
           workers = [Done]\<rparr>"
  by code_simp

text \<open>
  C5. In every state that a run can reach, the counts of the status histogram, summed
  over its keys, equal \<open>processed\<close>. Whatever the event loop runs next, no key is
  removed and every count stays as it is or goes up by exactly one, never down. A key
  that is new starts from zero (an absent key reads as \<open>statusCounts[k] || 0\<close>) and is
  put in with that zero incremented by one.
\<close>

theorem histogram_total_is_processed:
  assumes "exec es (start_pool urls d n) = Some s"
  shows "(\<Sum>k \<in> fst ` set (statusCounts s). count_of (statusCounts s) k) = processed s
    \<and> (\<forall>e s'. step e s = Some s' \<longrightarrow>
          fst ` set (statusCounts s) \<subseteq> fst ` set (statusCounts s')
          \<and> (\<forall>k. count_of (statusCounts s') k = count_of (statusCounts s) k
                 \<or> count_of (statusCounts s') k = count_of (statusCounts s) k + 1)
          \<and> (\<forall>k. k \<notin> fst ` set (statusCounts s) \<longrightarrow> k \<in> fst ` set (statusCounts s')
                 \<longrightarrow> count_of (statusCounts s) k = 0
                   \<and> count_of (statusCounts s') k = count_of (statusCounts s) k + 1))"
proof -
  from assms have inv: "pool_inv urls s"
    by (rule pool_inv_exec) (rule pool_inv_start)
  then have total: "(\<Sum>k \<in> fst ` set (statusCounts s). count_of (statusCounts s) k) = processed s"
    by (simp add: pool_inv_def sum_over_keys)
  have absent: "count_of h k = 0" if "k \<notin> fst ` set h" for h :: "(int \<times> nat) list" and k
    using that by (simp add: count_of_def js_or_0 map_of_eq_None_iff [THEN iffD2])
  have "fst ` set (statusCounts s) \<subseteq> fst ` set (statusCounts s')
          \<and> (\<forall>k. count_of (statusCounts s') k = count_of (statusCounts s) k
                 \<or> count_of (statusCounts s') k = count_of (statusCounts s) k + 1)
          \<and> (\<forall>k. k \<notin> fst ` set (statusCounts s) \<longrightarrow> k \<in> fst ` set (statusCounts s')
                 \<longrightarrow> count_of (statusCounts s) k = 0
                   \<and> count_of (statusCounts s') k = count_of (statusCounts s) k + 1)"
    if "step e s = Some s'" for e s'
    using step_statusCounts [OF that]
  proof
    assume "statusCounts s' = statusCounts s"
    then show ?thesis by simp
  next
    assume "\<exists>k. statusCounts s' = AList.update k (count_of (statusCounts s) k + 1) (statusCounts s)"
    then obtain k where "statusCounts s' = AList.update k (count_of (statusCounts s) k + 1) (statusCounts s)" ..
    then show ?thesis
      by (auto simp add: count_of_update dom_update absent)
  qed
  with total show ?thesis by blast
qed

theorem histogram_total_is_processed_witness:
  "exec [Settle 0 (Resolved 200), Continue 0, Timer 0, Settle 0 (Rejected (Some 404))]
     (start_pool [''http://a.test/'', ''http://b.test/''] (Num 300) 1)
   = Some \<lparr>non200Urls = [\<lparr>url = ''http://b.test/'', status = 404\<rparr>],
           parsedUrls = [\<lparr>url = ''http://a.test/'', status = 200\<rparr>], urlQueue = [],
           total = 2, processed = 1, statusCounts = [(200, 1)], isPaused = False,
           delay_ms = Num 300,
           requests = [''http://a.test/'', ''http://b.test/''],
           reports =
             [\<lparr>r_processed = 1, r_total = 2, r_url = ''http://a.test/'',
               r_status = 200, r_statusCounts = [(200, 1)],
               r_urls = [''http://b.test/'']\<rparr>],
           workers =
             [Returned ''http://b.test/'' [] \<lparr>url = ''http://b.test/'', status = 404\<rparr>]\<rparr>
   \<and> (\<Sum>k \<in> fst ` set [(200::int, 1::nat)]. count_of [(200, 1)] k) = 1
   \<and> step (Continue 0)
        \<lparr>non200Urls = [\<lparr>url = ''http://b.test/'', status = 404\<rparr>],
           parsedUrls = [\<lparr>url = ''http://a.test/'', status = 200\<rparr>], urlQueue = [],
           total = 2, processed = 1, statusCounts = [(200, 1)], isPaused = False,
           delay_ms = Num 300,
           requests = [''http://a.test/'', ''http://b.test/''],
           reports =
             [\<lparr>r_processed = 1, r_total = 2, r_url = ''http://a.test/'',
               r_status = 200, r_statusCounts = [(200, 1)],
               r_urls = [''http://b.test/'']\<rparr>],
           workers =
             [Returned ''http://b.test/'' [] \<lparr>url = ''http://b.test/'', status = 404\<rparr>]\<rparr>
      = Some \<lparr>non200Urls = [\<lparr>url = ''http://b.test/'', status = 404\<rparr>],
           parsedUrls = [\<lparr>url = ''http://a.test/'', status = 200\<rparr>], urlQueue = [],
           total = 2, processed = 2, statusCounts = [(200, 1), (404, 1)],
           isPaused = False, delay_ms = Num 300,
           requests = [''http://a.test/'', ''http://b.test/''],
           reports =
             [\<lparr>r_processed = 1, r_total = 2, r_url = ''http://a.test/'',
               r_status = 200, r_statusCounts = [(200, 1)],
               r_urls = [''http://b.test/'']\<rparr>,
              \<lparr>r_processed = 2, r_total = 2, r_url = ''http://b.test/'',
               r_status = 404, r_statusCounts = [(200, 1), (404, 1)],
               r_urls = []\<rparr>],
           workers = [Sleeping (Num 300)]\<rparr>
   \<and> count_of [(200::int, 1::nat), (404, 1)] 404 = 1"
  (is "exec ?es ?init = Some ?S1 \<and> _ \<and> step _ _ = Some ?S2 \<and> _")
proof -
  have run: "exec ?es ?init = Some ?S1"
    by code_simp
  have st: "step (Continue 0) ?S1 = Some ?S2"
    by code_simp
  have new: "404 \<notin> fst ` set (statusCounts ?S1)" "404 \<in> fst ` set (statusCounts ?S2)"
    by simp_all
  note inst = histogram_total_is_processed [OF run]
  have total: "(\<Sum>k \<in> fst ` set (statusCounts ?S1). count_of (statusCounts ?S1) k) = processed ?S1"
    using inst by (rule conjunct1)
  have "count_of (statusCounts ?S1) 404 = 0
      \<and> count_of (statusCounts ?S2) 404 = count_of (statusCounts ?S1) 404 + 1"
    by (rule inst [THEN conjunct2, rule_format, OF st, THEN conjunct2, THEN conjunct2,
          rule_format, OF new])
  then have "count_of (statusCounts ?S2) 404 = 1"
    by simp
  with total run st show ?thesis by simp
qed

text \<open>
  C6. From a state in which the pause flag is set, and for as long as nothing clears
  it, whatever the event loop runs: the flag stays set, the queue is the same list and
  no URL is passed to \<open>validateURL\<close>; the queue at the end of the pause is the queue at
  its start, so no URL is lost and none is handed out twice. A worker whose timer fires
  while the flag is set and the queue is not empty starts a timer of 1000 ms and changes
  nothing else; when that timer fires it tests again, with the same outcome while the
  flag is set.
\<close>

theorem paused_pool_pops_nothing:
  assumes "isPaused s"
  shows "(exec es s = Some s' \<and> Pause False \<notin> set es \<longrightarrow>
           isPaused s' \<and> urlQueue s' = urlQueue s \<and> requests s' = requests s)
    \<and> (i < length (workers s) \<and> workers s ! i = Sleeping ms \<and> urlQueue s \<noteq> [] \<longrightarrow>
           step (Timer i) s = Some (set_worker i (Sleeping (Num 1000)) s)
         \<and> step (Timer i) (set_worker i (Sleeping (Num 1000)) s)
             = Some (set_worker i (Sleeping (Num 1000)) s))"
proof -
  have "step (Timer i) s = Some (set_worker i (Sleeping (Num 1000)) s)
         \<and> step (Timer i) (set_worker i (Sleeping (Num 1000)) s)
             = Some (set_worker i (Sleeping (Num 1000)) s)"
    if "i < length (workers s)" "workers s ! i = Sleeping ms" "urlQueue s \<noteq> []"
  proof -
    let ?t = "set_worker i (Sleeping (Num 1000)) s"
    have "isPaused ?t" "urlQueue ?t \<noteq> []" "i < length (workers ?t)"
      "workers ?t ! i = Sleeping (Num 1000)"
      using assms that by (simp_all add: set_worker_fields)
    moreover have "set_worker i (Sleeping (Num 1000)) ?t = ?t"
      by (simp add: set_worker_def)
    ultimately show ?thesis
      using assms that by (simp add: step_Timer worker_loop_paused)
  qed
  with paused_exec [OF assms] show ?thesis by blast
qed

theorem paused_pool_pops_nothing_witness:
  "exec [Settle 0 (Resolved 200), Continue 0, Pause True]
     (start_pool [''http://a.test/'', ''http://b.test/''] (Num 300) 1)
   = Some \<lparr>non200Urls = [], parsedUrls = [\<lparr>url = ''http://a.test/'', status = 200\<rparr>],
           urlQueue = [''http://b.test/''], total = 2, processed = 1,
           statusCounts = [(200, 1)], isPaused = True, delay_ms = Num 300,
           requests = [''http://a.test/''],
           reports =
             [\<lparr>r_processed = 1, r_total = 2, r_url = ''http://a.test/'',
               r_status = 200, r_statusCounts = [(200, 1)],
               r_urls = [''http://b.test/'']\<rparr>],
           workers = [Sleeping (Num 300)]\<rparr>
   \<and> exec [Timer 0, Pause True, Timer 0]
       \<lparr>non200Urls = [], parsedUrls = [\<lparr>url = ''http://a.test/'', status = 200\<rparr>],
           urlQueue = [''http://b.test/''], total = 2, processed = 1,
           statusCounts = [(200, 1)], isPaused = True, delay_ms = Num 300,
           requests = [''http://a.test/''],
           reports =
             [\<lparr>r_processed = 1, r_total = 2, r_url = ''http://a.test/'',
               r_status = 200, r_statusCounts = [(200, 1)],
               r_urls = [''http://b.test/'']\<rparr>],
           workers = [Sleeping (Num 300)]\<rparr>
     = Some \<lparr>non200Urls = [], parsedUrls = [\<lparr>url = ''http://a.test/'', status = 200\<rparr>],
           urlQueue = [''http://b.test/''], total = 2, processed = 1,
           statusCounts = [(200, 1)], isPaused = True, delay_ms = Num 300,
           requests = [''http://a.test/''],
           reports =
             [\<lparr>r_processed = 1, r_total = 2, r_url = ''http://a.test/'',
               r_status = 200, r_statusCounts = [(200, 1)],
               r_urls = [''http://b.test/'']\<rparr>],
           workers = [Sleeping (Num 1000)]\<rparr>
   \<and> step (Timer 0)
       \<lparr>non200Urls = [], parsedUrls = [\<lparr>url = ''http://a.test/'', status = 200\<rparr>],
           urlQueue = [''http://b.test/''], total = 2, processed = 1,
           statusCounts = [(200, 1)], isPaused = True, delay_ms = Num 300,
           requests = [''http://a.test/''],
           reports =
             [\<lparr>r_processed = 1, r_total = 2, r_url = ''http://a.test/'',
               r_status = 200, r_statusCounts = [(200, 1)],
               r_urls = [''http://b.test/'']\<rparr>],
           workers = [Sleeping (Num 300)]\<rparr>
     = Some \<lparr>non200Urls = [], parsedUrls = [\<lparr>url = ''http://a.test/'', status = 200\<rparr>],
           urlQueue = [''http://b.test/''], total = 2, processed = 1,
           statusCounts = [(200, 1)], isPaused = True, delay_ms = Num 300,
           requests = [''http://a.test/''],
           reports =
             [\<lparr>r_processed = 1, r_total = 2, r_url = ''http://a.test/'',
               r_status = 200, r_statusCounts = [(200, 1)],
               r_urls = [''http://b.test/'']\<rparr>],
           workers = [Sleeping (Num 1000)]\<rparr>"
  (is "exec ?pre ?init = Some ?P \<and> exec ?es _ = Some ?Q \<and> step _ _ = _")
proof -
  have reach: "exec ?pre ?init = Some ?P"
    by code_simp
  have run: "exec ?es ?P = Some ?Q"
    by code_simp
  have hyps: "isPaused ?P" "Pause False \<notin> set ?es" "(0::nat) < length (workers ?P)"
    "workers ?P ! 0 = Sleeping (Num 300)" "urlQueue ?P \<noteq> []"
    by simp_all
  from paused_pool_pops_nothing [OF hyps(1), of ?es ?Q 0 "Num 300"] run hyps
  have "urlQueue ?Q = urlQueue ?P \<and> requests ?Q = requests ?P"
    and "step (Timer 0) ?P = Some (set_worker 0 (Sleeping (Num 1000)) ?P)"
    by blast+
  with reach run show ?thesis by (simp add: set_worker_def)
qed

text \<open>
  C7. A worker whose timer fires when the queue is empty returns: it becomes \<open>Done\<close>
  and nothing else changes. A worker that is \<open>Done\<close> has no event left: no timer of its
  own fires, no request of its own settles, it continues nowhere. In every further
  course of the run it stays \<open>Done\<close>, and none of the events that occur is one of its
  own, so it pops no URL, validates none and updates no shared state again.
\<close>

theorem done_worker_is_permanent:
  "(j < length (workers s) \<and> workers s ! j = Sleeping ms \<and> urlQueue s = [] \<longrightarrow>
      step (Timer j) s = Some (set_worker j Done s))
   \<and> (i < length (workers s) \<and> workers s ! i = Done \<longrightarrow>
        step (Timer i) s = None \<and> step (Settle i res) s = None \<and> step (Continue i) s = None)
   \<and> (i < length (workers s) \<and> workers s ! i = Done \<and> exec es s = Some s' \<longrightarrow>
        i < length (workers s') \<and> workers s' ! i = Done
        \<and> (\<forall>e \<in> set es. worker_of e \<noteq> Some i))"
proof -
  have "step (Timer j) s = Some (set_worker j Done s)"
    if "j < length (workers s)" "workers s ! j = Sleeping ms" "urlQueue s = []"
    using that by (simp add: step_Timer worker_loop_empty)
  moreover have "step (Timer i) s = None \<and> step (Settle i res) s = None \<and> step (Continue i) s = None"
    if "i < length (workers s)" "workers s ! i = Done"
    using that by (simp add: step_def)
  ultimately show ?thesis using done_exec [of i s es s'] by blast
qed

theorem done_worker_is_permanent_witness:
  "exec [Settle 0 (Resolved 200), Continue 0] (start_pool [''http://a.test/''] (Num 300) 2)
   = Some \<lparr>non200Urls = [], parsedUrls = [\<lparr>url = ''http://a.test/'', status = 200\<rparr>],
           urlQueue = [], total = 1, processed = 1, statusCounts = [(200, 1)],
           isPaused = False, delay_ms = Num 300, requests = [''http://a.test/''],
           reports =
             [\<lparr>r_processed = 1, r_total = 1, r_url = ''http://a.test/'',
               r_status = 200, r_statusCounts = [(200, 1)], r_urls = []\<rparr>],
           workers = [Sleeping (Num 300), Done]\<rparr>
   \<and> exec [Timer 0]
        \<lparr>non200Urls = [], parsedUrls = [\<lparr>url = ''http://a.test/'', status = 200\<rparr>],
           urlQueue = [], total = 1, processed = 1, statusCounts = [(200, 1)],
           isPaused = False, delay_ms = Num 300, requests = [''http://a.test/''],
           reports =
             [\<lparr>r_processed = 1, r_total = 1, r_url = ''http://a.test/'',
               r_status = 200, r_statusCounts = [(200, 1)], r_urls = []\<rparr>],
           workers = [Sleeping (Num 300), Done]\<rparr>
     = Some \<lparr>non200Urls = [], parsedUrls = [\<lparr>url = ''http://a.test/'', status = 200\<rparr>],
           urlQueue = [], total = 1, processed = 1, statusCounts = [(200, 1)],
           isPaused = False, delay_ms = Num 300, requests = [''http://a.test/''],
           reports =
             [\<lparr>r_processed = 1, r_total = 1, r_url = ''http://a.test/'',
               r_status = 200, r_statusCounts = [(200, 1)], r_urls = []\<rparr>],
           workers = [Done, Done]\<rparr>
   \<and> step (Timer 1)
        \<lparr>non200Urls = [], parsedUrls = [\<lparr>url = ''http://a.test/'', status = 200\<rparr>],
           urlQueue = [], total = 1, processed = 1, statusCounts = [(200, 1)],
           isPaused = False, delay_ms = Num 300, requests = [''http://a.test/''],
           reports =
             [\<lparr>r_processed = 1, r_total = 1, r_url = ''http://a.test/'',
               r_status = 200, r_statusCounts = [(200, 1)], r_urls = []\<rparr>],
           workers = [Sleeping (Num 300), Done]\<rparr> = None
   \<and> worker_of (Timer 0) \<noteq> Some 1"
  (is "exec ?pre ?init = Some ?D \<and> exec ?es _ = Some ?E \<and> _ \<and> _")
proof -
  have reach: "exec ?pre ?init = Some ?D"
    by code_simp
  have run: "exec ?es ?D = Some ?E"
    by code_simp
  have hyps: "(0::nat) < length (workers ?D)" "workers ?D ! 0 = Sleeping (Num 300)"
    "urlQueue ?D = []" "(1::nat) < length (workers ?D)" "workers ?D ! 1 = Done"
    by simp_all
  from done_worker_is_permanent [of 0 ?D "Num 300" 1 "Resolved 200" ?es ?E] hyps run
  have "step (Timer 0) ?D = Some (set_worker 0 Done ?D)"
    and "step (Timer 1) ?D = None"
    and "workers ?E ! 1 = Done \<and> (\<forall>e \<in> set ?es. worker_of e \<noteq> Some 1)"
    by blast+
  with reach run show ?thesis by simp
qed

end
